theory Spec2Isabelle
  imports Complex_Main "HOL-Library.AList"
begin

section \<open>Sector search: the data model\<close>

text \<open>
  The embedding follows \<^verbatim>\<open>SectorSearch.py\<close> (Python 2.7). A point is the pair of its two
  coordinates. Coordinates and the conflict radius are Python floats: finite binary64
  values, written here as the real numbers that they are (a Python integer of magnitude
  up to \<open>2\<^sup>5\<^sup>3\<close> behaves as the float that it equals). Exceptions are values of \<open>error\<close>;
  what \<^verbatim>\<open>print\<close> writes under \<^verbatim>\<open>debug\<close> is a list of \<open>msg\<close> (the elapsed times that the
  messages carry are left out).
\<close>

datatype error = AssertionError | KeyError | ValueError | OverflowError

record drone =
  coords :: "real \<times> real"
  drone_id :: nat

type_synonym sectors = "((int \<times> int) \<times> drone list) list"

definition NUM_DRONES :: int where
  "NUM_DRONES = 10000"

definition AIRSPACE_SIZE :: int where
  "AIRSPACE_SIZE = 128000"

definition CONFLICT_RADIUS :: int where
  "CONFLICT_RADIUS = 500"

section \<open>Floating-point arithmetic\<close>

text \<open>
  The result of a float operation is its exact result rounded to the nearest binary64
  value, ties to the even significand; below \<open>2\<^sup>-\<^sup>1\<^sup>0\<^sup>2\<^sup>2\<close> the values are the subnormal ones,
  multiples of \<open>2\<^sup>-\<^sup>1\<^sup>0\<^sup>7\<^sup>4\<close>. \<open>to_double\<close> is this rounding with no bound on the exponent
  above; a rounded value of magnitude \<open>2\<^sup>1\<^sup>0\<^sup>2\<^sup>4\<close> or more is out of range.
\<close>

definition round_half_even :: "real \<Rightarrow> int" where
  "round_half_even y =
     (let f = \<lfloor>y\<rfloor> in
      if y - of_int f < 1 / 2 then f
      else if 1 / 2 < y - of_int f then f + 1
      else if even f then f else f + 1)"

definition double_exponent :: "real \<Rightarrow> int" where
  "double_exponent x = max \<lfloor>log 2 \<bar>x\<bar>\<rfloor> (- 1022)"

definition double_ulp :: "real \<Rightarrow> real" where
  "double_ulp x = 2 powr (of_int (double_exponent x) - 52)"

definition to_double :: "real \<Rightarrow> real" where
  "to_double x =
     (if x = 0 then 0 else of_int (round_half_even (x / double_ulp x)) * double_ulp x)"

text \<open>
  The values that an operation on floats returns. Addition and subtraction return an
  infinity when the rounded result is out of range.
\<close>

datatype double = Finite real | PosInf | NegInf | NaN

definition double_of :: "real \<Rightarrow> double" where
  "double_of x =
     (let y = to_double x
      in if 2 ^ 1024 \<le> y then PosInf else if y \<le> - (2 ^ 1024) then NegInf else Finite y)"

fun double_add :: "double \<Rightarrow> double \<Rightarrow> double" where
  "double_add (Finite a) (Finite b) = double_of (a + b)"
| "double_add NaN y = NaN"
| "double_add x NaN = NaN"
| "double_add PosInf NegInf = NaN"
| "double_add NegInf PosInf = NaN"
| "double_add PosInf y = PosInf"
| "double_add x PosInf = PosInf"
| "double_add NegInf y = NegInf"
| "double_add x NegInf = NegInf"

text \<open>
  \<^verbatim>\<open>x ** 2.0\<close> and \<^verbatim>\<open>x ** 0.5\<close>, as \<^verbatim>\<open>float_pow\<close> of Python 2.7 computes them: infinities and
  NaN are answered first, a negative base with the exponent \<open>0.5\<close> raises \<^verbatim>\<open>ValueError\<close>,
  and a result of the C function \<^verbatim>\<open>pow\<close> that is out of range raises \<^verbatim>\<open>OverflowError\<close>.
  The result of \<^verbatim>\<open>pow\<close> is taken as correctly rounded.
\<close>

fun pow_2 :: "double \<Rightarrow> error + double" where
  "pow_2 NaN = Inr NaN"
| "pow_2 PosInf = Inr PosInf"
| "pow_2 NegInf = Inr PosInf"
| "pow_2 (Finite x) =
     (case double_of (x * x) of Finite y \<Rightarrow> Inr (Finite y) | _ \<Rightarrow> Inl OverflowError)"

fun pow_half :: "double \<Rightarrow> error + double" where
  "pow_half NaN = Inr NaN"
| "pow_half PosInf = Inr PosInf"
| "pow_half NegInf = Inr PosInf"
| "pow_half (Finite x) =
     (if x < 0 then Inl ValueError else Inr (Finite (to_double (sqrt x))))"

text \<open>The comparison \<^verbatim>\<open>distance < conflict_rad\<close> of a float with a finite number.\<close>

fun double_less :: "double \<Rightarrow> real \<Rightarrow> bool" where
  "double_less (Finite x) r = (x < r)"
| "double_less NegInf r = True"
| "double_less PosInf r = False"
| "double_less NaN r = False"

text \<open>
  \<^verbatim>\<open>dist\<close>: \<^verbatim>\<open>sum([(ax1-ax2)**2.0 for ax1,ax2 in zip(p1,p2)])**0.5\<close>. The sum starts from the
  integer \<open>0\<close>.
\<close>

definition dist_pts :: "real \<times> real \<Rightarrow> real \<times> real \<Rightarrow> error + double" where
  "dist_pts p1 p2 =
     (case pow_2 (double_of (fst p1 - fst p2)) of
        Inl e \<Rightarrow> Inl e
      | Inr sx \<Rightarrow>
          (case pow_2 (double_of (snd p1 - snd p2)) of
             Inl e \<Rightarrow> Inl e
           | Inr sy \<Rightarrow> pow_half (double_add (double_add (Finite 0) sx) sy)))"

datatype msg =
    ConflictMsg nat nat double
  | PreprocessingMsg
  | SectorMsg int nat
  | BatchMsg int nat

section \<open>The grid builder\<close>

text \<open>
  \<^verbatim>\<open>range(n)[::k]\<close>: every \<open>k\<close>-th element of \<open>0, ..., n - 1\<close> from the front when \<open>k\<close> is
  positive, from the back when \<open>k\<close> is negative; a zero step raises \<^verbatim>\<open>ValueError\<close>.
\<close>

definition range_step :: "int \<Rightarrow> int \<Rightarrow> error + int list" where
  "range_step n k =
     (if k = 0 then Inl ValueError
      else if 0 < k then Inr (map (\<lambda>i. int i * k) [0..<nat ((n + k - 1) div k)])
      else Inr (map (\<lambda>i. n - 1 + int i * k) [0..<nat ((n - k - 1) div (- k))]))"

text \<open>
  \<^verbatim>\<open>split_into_sectors\<close>: the boundaries, with the airspace size appended, and the
  dictionary of empty sectors keyed by \<open>(x, y)\<close> for \<open>x\<close> and \<open>y\<close> in
  \<^verbatim>\<open>range(len(boundaries)+1)\<close>. The dictionary is an association list whose keys stay
  fixed once it is built.
\<close>

definition split_into_sectors :: "int \<Rightarrow> int \<Rightarrow> int \<Rightarrow> error + (int list \<times> sectors)" where
  "split_into_sectors airspace_size conflict_radius pad_mult =
     (case range_step airspace_size (conflict_radius * pad_mult) of
        Inl e \<Rightarrow> Inl e
      | Inr rs \<Rightarrow>
          (let boundaries = rs @ [airspace_size];
               n = int (length boundaries)
           in Inr (boundaries, concat (map (\<lambda>x. map (\<lambda>y. ((x, y), [])) [0..n]) [0..n]))))"

section \<open>The cell mapper\<close>

text \<open>
  \<^verbatim>\<open>next(ix for ix, pivot in enumerate(boundaries) if pivot > position)\<close>, with \<open>None\<close>
  for \<^verbatim>\<open>StopIteration\<close>.
\<close>

fun first_greater :: "int list \<Rightarrow> real \<Rightarrow> nat \<Rightarrow> nat option" where
  "first_greater [] position ix = None"
| "first_greater (pivot # rest) position ix =
     (if real_of_int pivot > position then Some ix
      else first_greater rest position (Suc ix))"

definition map_coordinate :: "int list \<Rightarrow> real \<Rightarrow> int \<times> int" where
  "map_coordinate boundaries position =
     (let field = (case first_greater boundaries position 0 of
                     Some ix \<Rightarrow> int ix
                   | None \<Rightarrow> int (length boundaries) - 1)
      in (field - 1, field))"

section \<open>The cell scanner\<close>

text \<open>
  The two nested loops of \<^verbatim>\<open>get_conflicts\<close> visit the pairs \<open>(drones[ax], drones[bx])\<close>
  with \<open>ax < bx\<close>, row by row. \<open>scan_row\<close> is the inner loop for one \<open>droneA\<close> and
  \<open>conflict_pairs\<close> the outer one: they list the pairs that pass the test
  \<^verbatim>\<open>distance < conflict_rad\<close>, with their distance, in the order of the visit; an
  exception raised by \<^verbatim>\<open>dist\<close> ends the scan.
\<close>

fun scan_row :: "drone \<Rightarrow> drone list \<Rightarrow> real \<Rightarrow> error + (drone \<times> drone \<times> double) list" where
  "scan_row droneA [] conflict_rad = Inr []"
| "scan_row droneA (droneB # rest) conflict_rad =
     (case dist_pts (coords droneA) (coords droneB) of
        Inl e \<Rightarrow> Inl e
      | Inr distance \<Rightarrow>
          (case scan_row droneA rest conflict_rad of
             Inl e \<Rightarrow> Inl e
           | Inr found \<Rightarrow>
               Inr (if double_less distance conflict_rad
                    then (droneA, droneB, distance) # found else found)))"

fun conflict_pairs :: "drone list \<Rightarrow> real \<Rightarrow> error + (drone \<times> drone \<times> double) list" where
  "conflict_pairs [] conflict_rad = Inr []"
| "conflict_pairs (droneA # rest) conflict_rad =
     (case scan_row droneA rest conflict_rad of
        Inl e \<Rightarrow> Inl e
      | Inr found \<Rightarrow>
          (case conflict_pairs rest conflict_rad of
             Inl e \<Rightarrow> Inl e
           | Inr others \<Rightarrow> Inr (found @ others)))"

text \<open>
  \<^verbatim>\<open>get_conflicts\<close>: every conflicting pair prints a message under \<^verbatim>\<open>debug\<close> and appends
  its two identifiers; the returned list keeps of each identifier its last occurrence,
  \<^verbatim>\<open>[v for ix,v in enumerate(conflicts) if v not in conflicts[ix+1:]]\<close>, which is
  \<open>remdups\<close>.
\<close>

definition get_conflicts :: "drone list \<Rightarrow> real \<Rightarrow> bool \<Rightarrow> error + (msg list \<times> nat list)" where
  "get_conflicts drones conflict_rad debug =
     (if length drones < 2 then Inr ([], [])
      else
        (case conflict_pairs drones conflict_rad of
           Inl e \<Rightarrow> Inl e
         | Inr pairs \<Rightarrow>
             (let printed = (if debug
                             then map (\<lambda>(droneA, droneB, distance).
                                    ConflictMsg (drone_id droneA) (drone_id droneB) distance) pairs
                             else []);
                  conflicts = concat (map (\<lambda>(droneA, droneB, distance).
                                [drone_id droneA, drone_id droneB]) pairs)
              in Inr (printed, remdups conflicts))))"

section \<open>The assigner and the aggregator\<close>

text \<open>\<^verbatim>\<open>sectors[sector_loc].append(drone)\<close>: a missing key raises \<^verbatim>\<open>KeyError\<close>.\<close>

definition append_at :: "sectors \<Rightarrow> int \<times> int \<Rightarrow> drone \<Rightarrow> error + sectors" where
  "append_at sectors sector_loc d =
     (case map_of sectors sector_loc of
        None \<Rightarrow> Inl KeyError
      | Some ds \<Rightarrow> Inr (AList.update sector_loc (ds @ [d]) sectors))"

fun append_all :: "sectors \<Rightarrow> (int \<times> int) list \<Rightarrow> drone \<Rightarrow> error + sectors" where
  "append_all sectors [] d = Inr sectors"
| "append_all sectors (sector_loc # locs) d =
     (case append_at sectors sector_loc d of
        Inl e \<Rightarrow> Inl e
      | Inr sectors' \<Rightarrow> append_all sectors' locs d)"

text \<open>\<^verbatim>\<open>[(x,y) for x in xs for y in ys]\<close> for the two pairs that the mapper returns.\<close>

definition sector_locs :: "int list \<Rightarrow> drone \<Rightarrow> (int \<times> int) list" where
  "sector_locs boundaries d =
     (let xs = map_coordinate boundaries (fst (coords d));
          ys = map_coordinate boundaries (snd (coords d))
      in concat (map (\<lambda>x. map (\<lambda>y. (x, y)) [fst ys, snd ys]) [fst xs, snd xs]))"

fun assign_drones :: "int list \<Rightarrow> sectors \<Rightarrow> drone list \<Rightarrow> error + sectors" where
  "assign_drones boundaries sectors [] = Inr sectors"
| "assign_drones boundaries sectors (d # ds) =
     (case append_all sectors (sector_locs boundaries d) d of
        Inl e \<Rightarrow> Inl e
      | Inr sectors' \<Rightarrow> assign_drones boundaries sectors' ds)"

text \<open>
  The slice \<^verbatim>\<open>drones[0:limit]\<close>: a negative \<open>limit\<close> counts from the end of the list, so
  \<open>-1\<close> leaves the last element out.
\<close>

definition py_prefix :: "'a list \<Rightarrow> int \<Rightarrow> 'a list" where
  "py_prefix xs limit =
     (if limit < 0 then take (nat (int (length xs) + limit)) xs else take (nat limit) xs)"

text \<open>\<^verbatim>\<open>np.unique\<close>: the sorted list of the distinct elements.\<close>

definition np_unique :: "nat list \<Rightarrow> nat list" where
  "np_unique xs = sort (remdups xs)"

text \<open>
  The loop of \<^verbatim>\<open>count_conflicts\<close> over the sectors, each scanned with \<^verbatim>\<open>debug\<close> off. The
  order in which Python iterates over the dictionary is not specified; here it is the
  order of the keys' creation. The only exception that a scan raises from points with
  finite coordinates is \<^verbatim>\<open>OverflowError\<close>, so the order does not change what the loop
  returns or raises.
\<close>

fun scan_sectors :: "sectors \<Rightarrow> real \<Rightarrow> error + nat list" where
  "scan_sectors [] conflict_radius = Inr []"
| "scan_sectors ((index, sector_drones) # rest) conflict_radius =
     (case get_conflicts sector_drones conflict_radius False of
        Inl e \<Rightarrow> Inl e
      | Inr (printed, found) \<Rightarrow>
          (case scan_sectors rest conflict_radius of
             Inl e \<Rightarrow> Inl e
           | Inr others \<Rightarrow> Inr (found @ others)))"

text \<open>
  \<^verbatim>\<open>count_conflicts\<close>. The grid comes from \<^verbatim>\<open>split_into_sectors()\<close> with its default
  arguments, the module constants and \<^verbatim>\<open>pad_mult=10\<close>. When the limit is not \<open>-1\<close> the
  whole slice is scanned once more, all pairs at once, before the count is returned.
\<close>

definition count_conflicts ::
    "(real \<times> real) list \<Rightarrow> real \<Rightarrow> bool \<Rightarrow> int \<Rightarrow> error + (msg list \<times> nat)" where
  "count_conflicts drones conflict_radius debug limit =
     (if \<not> (- 1 \<le> limit \<and> limit \<le> int (length drones)) then Inl AssertionError
      else
        (let drone_objs = map (\<lambda>(ident, drone). \<lparr>coords = drone, drone_id = ident\<rparr>)
                             (enumerate 0 drones)
         in case split_into_sectors AIRSPACE_SIZE CONFLICT_RADIUS 10 of
              Inl e \<Rightarrow> Inl e
            | Inr (boundaries, sectors) \<Rightarrow>
                (case assign_drones boundaries sectors (py_prefix drone_objs limit) of
                   Inl e \<Rightarrow> Inl e
                 | Inr sectors' \<Rightarrow>
                     (let out_pre = (if debug then [PreprocessingMsg] else [])
                      in case scan_sectors sectors' conflict_radius of
                           Inl e \<Rightarrow> Inl e
                         | Inr conflicts \<Rightarrow>
                             (let num_conflicts = length (np_unique conflicts);
                                  out_sector = (if debug then [SectorMsg limit num_conflicts]
                                                else [])
                              in if limit \<noteq> - 1
                                 then (case get_conflicts (py_prefix drone_objs limit)
                                              conflict_radius False of
                                         Inl e \<Rightarrow> Inl e
                                       | Inr (printed, batch_conflicts) \<Rightarrow>
                                           Inr (out_pre @ out_sector @
                                                (if debug
                                                 then [BatchMsg limit
                                                         (length (np_unique batch_conflicts))]
                                                 else []),
                                                num_conflicts))
                                 else Inr (out_pre @ out_sector, num_conflicts))))))"

text \<open>What a call returns, when it returns: its result without the printed messages.\<close>

definition returned :: "error + (msg list \<times> 'a) \<Rightarrow> error + 'a" where
  "returned res = map_sum id snd res"

section \<open>The brute-force reference\<close>

text \<open>
  The reference of the specification: the number of points of the sequence that have
  another point of the sequence at a distance strictly below the radius, found by
  looking at all pairs with the comparison of the scanner, \<^verbatim>\<open>dist(p, q) < r\<close>.
\<close>

definition conflicting :: "real \<times> real \<Rightarrow> real \<times> real \<Rightarrow> real \<Rightarrow> bool" where
  "conflicting p q r = (case dist_pts p q of Inl e \<Rightarrow> False | Inr d \<Rightarrow> double_less d r)"

definition brute_force_count :: "(real \<times> real) list \<Rightarrow> real \<Rightarrow> nat" where
  "brute_force_count points r =
     length (filter (\<lambda>i. \<exists>j \<in> set [0..<length points]. j \<noteq> i \<and>
                            conflicting (points ! i) (points ! j) r)
               [0..<length points])"

text \<open>The Euclidean distance of two points, in real numbers.\<close>

definition euclidean :: "real \<times> real \<Rightarrow> real \<times> real \<Rightarrow> real" where
  "euclidean p q = sqrt ((fst p - fst q)\<^sup>2 + (snd p - snd q)\<^sup>2)"

section \<open>Auxiliary notions for the proofs\<close>

text \<open>
  The boundaries and the keys that \<^verbatim>\<open>split_into_sectors\<close> builds for a positive step;
  the field of a coordinate, and when the fields of two points differ by at most one on
  both axes; the length of the slice \<^verbatim>\<open>drones[0:limit]\<close>; the drone made of the \<open>i\<close>-th
  point; the points, among the first \<open>m\<close>, that are in conflict with another of them in
  fields at most one apart; the pairs of a list of drones that are in conflict, with the
  identifiers that they give; and a float that is infinite or at least a given number.
\<close>

definition grid_bounds :: "int \<Rightarrow> int \<Rightarrow> int list" where
  "grid_bounds S k = map (\<lambda>i. int i * k) [0..<nat ((S + k - 1) div k)] @ [S]"

definition grid_keys :: "int \<Rightarrow> (int \<times> int) list" where
  "grid_keys n = concat (map (\<lambda>x. map (\<lambda>y. (x, y)) [0..n]) [0..n])"

definition field_of :: "int list \<Rightarrow> real \<Rightarrow> nat" where
  "field_of bs p = (case first_greater bs p 0 of Some ix \<Rightarrow> ix | None \<Rightarrow> length bs - 1)"

definition near_fields :: "int list \<Rightarrow> real \<times> real \<Rightarrow> real \<times> real \<Rightarrow> bool" where
  "near_fields bs p q \<longleftrightarrow>
     field_of bs (fst p) \<le> Suc (field_of bs (fst q)) \<and>
     field_of bs (fst q) \<le> Suc (field_of bs (fst p)) \<and>
     field_of bs (snd p) \<le> Suc (field_of bs (snd q)) \<and>
     field_of bs (snd q) \<le> Suc (field_of bs (snd p))"

definition prefix_len :: "nat \<Rightarrow> int \<Rightarrow> nat" where
  "prefix_len n limit = min n (if limit < 0 then nat (int n + limit) else nat limit)"

definition sector_conflicted :: "int list \<Rightarrow> (real \<times> real) list \<Rightarrow> real \<Rightarrow> nat \<Rightarrow> nat set" where
  "sector_conflicted bs ps r m =
     {i. i < m \<and> (\<exists>j<m. j \<noteq> i \<and> conflicting (ps ! i) (ps ! j) r \<and>
                           near_fields bs (ps ! i) (ps ! j))}"

fun close_pairs :: "drone list \<Rightarrow> real \<Rightarrow> (drone \<times> drone) list" where
  "close_pairs [] r = []"
| "close_pairs (a # ds) r =
     map (Pair a) (filter (\<lambda>b. conflicting (coords a) (coords b) r) ds) @ close_pairs ds r"

definition at_least :: "real \<Rightarrow> double \<Rightarrow> bool" where
  "at_least c d \<longleftrightarrow> d = PosInf \<or> (\<exists>v. d = Finite v \<and> c \<le> v)"

definition close_ids :: "drone list \<Rightarrow> real \<Rightarrow> nat list" where
  "close_ids ds r = remdups (concat (map (\<lambda>(a, b). [drone_id a, drone_id b]) (close_pairs ds r)))"

definition mk_drone :: "(real \<times> real) list \<Rightarrow> nat \<Rightarrow> drone" where
  "mk_drone ps i = \<lparr>coords = ps ! i, drone_id = i\<rparr>"

section \<open>Rounding to a float\<close>

lemma round_half_even_int: "round_half_even (of_int k) = k"
  by (simp add: round_half_even_def)

lemma round_half_even_range:
  "\<lfloor>y\<rfloor> \<le> round_half_even y" "round_half_even y \<le> \<lfloor>y\<rfloor> + 1"
  by (simp_all add: round_half_even_def Let_def)

lemma round_half_even_mono:
  assumes "a \<le> b"
  shows "round_half_even a \<le> round_half_even b"
proof (cases "\<lfloor>a\<rfloor> < \<lfloor>b\<rfloor>")
  case True
  have "round_half_even a \<le> \<lfloor>a\<rfloor> + 1" by (rule round_half_even_range)
  also have "\<dots> \<le> \<lfloor>b\<rfloor>" using True by simp
  also have "\<dots> \<le> round_half_even b" by (rule round_half_even_range)
  finally show ?thesis .
next
  case False
  moreover have "\<lfloor>a\<rfloor> \<le> \<lfloor>b\<rfloor>" using assms by (rule floor_mono)
  ultimately have e: "\<lfloor>b\<rfloor> = \<lfloor>a\<rfloor>" by simp
  show ?thesis
    unfolding round_half_even_def Let_def e using assms by auto
qed


lemma round_half_even_minus: "round_half_even (- y) = - round_half_even y"
proof (cases "y = of_int \<lfloor>y\<rfloor>")
  case True
  then obtain k where k: "y = of_int k" by blast
  have "round_half_even (- of_int k) = round_half_even (of_int (- k))" by simp
  then show ?thesis unfolding k round_half_even_int by simp
next
  case False
  then have lt: "of_int \<lfloor>y\<rfloor> < y" by linarith
  have f: "\<lfloor>- y\<rfloor> = - \<lfloor>y\<rfloor> - 1"
    using False by (simp add: floor_minus ceiling_altdef)
  have p: "even (- \<lfloor>y\<rfloor> - 1) \<longleftrightarrow> odd \<lfloor>y\<rfloor>" by simp
  show ?thesis
    unfolding round_half_even_def Let_def f p using lt by auto
qed

lemma double_ulp_pos: "0 < double_ulp x"
  by (simp add: double_ulp_def)

lemma double_ulp_minus: "double_ulp (- x) = double_ulp x"
  by (simp add: double_ulp_def double_exponent_def)

lemma to_double_zero: "to_double 0 = 0"
  by (simp add: to_double_def)

lemma to_double_minus: "to_double (- x) = - to_double x"
  by (simp add: to_double_def double_ulp_minus round_half_even_minus)

lemma to_double_nonneg:
  assumes "0 \<le> x"
  shows "0 \<le> to_double x"
proof (cases "x = 0")
  case True
  then show ?thesis by (simp add: to_double_zero)
next
  case False
  have "0 \<le> x / double_ulp x" using assms double_ulp_pos[of x] by simp
  then have "round_half_even 0 \<le> round_half_even (x / double_ulp x)"
    by (rule round_half_even_mono)
  moreover have "round_half_even 0 = 0" using round_half_even_int[of 0] by simp
  ultimately have "0 \<le> round_half_even (x / double_ulp x)" by simp
  then show ?thesis using False double_ulp_pos[of x] by (simp add: to_double_def)
qed

lemma double_exponent_mono:
  assumes "0 < x" "x \<le> y"
  shows "double_exponent x \<le> double_exponent y"
proof -
  have "log 2 \<bar>x\<bar> \<le> log 2 \<bar>y\<bar>" using assms by simp
  then have "\<lfloor>log 2 \<bar>x\<bar>\<rfloor> \<le> \<lfloor>log 2 \<bar>y\<bar>\<rfloor>" by (rule floor_mono)
  then show ?thesis by (simp add: double_exponent_def)
qed

lemma below_next_power:
  assumes "0 < x"
  shows "x < 2 powr (of_int (double_exponent x) + 1)"
proof -
  have "log 2 x < of_int \<lfloor>log 2 x\<rfloor> + 1" by linarith
  also have "\<dots> \<le> of_int (double_exponent x) + 1"
    using assms by (simp add: double_exponent_def)
  finally have "2 powr log 2 x < 2 powr (of_int (double_exponent x) + 1)"
    by (simp add: powr_less_mono)
  then show ?thesis using assms by simp
qed

lemma to_double_upper:
  assumes "0 < x"
  shows "to_double x \<le> 2 powr (of_int (double_exponent x) + 1)"
proof -
  let ?e = "of_int (double_exponent x) :: real"
  have u: "double_ulp x = 2 powr (?e - 52)" by (simp add: double_ulp_def)
  have "2 powr (?e + 1) = 2 powr (53 + (?e - 52))"
    by (rule arg_cong[where f = "(powr) 2"]) simp
  also have "\<dots> = 2 powr 53 * 2 powr (?e - 52)" by (rule powr_add)
  finally have s: "2 powr (?e + 1) = 2 powr 53 * 2 powr (?e - 52)" .
  have p: "(2::real) powr 53 = of_int (2 ^ 53)"
    using powr_realpow[of "2::real" 53] by simp
  have "x / double_ulp x \<le> 2 powr 53"
    using below_next_power[OF assms] unfolding s u by (simp add: field_simps)
  then have "round_half_even (x / double_ulp x) \<le> round_half_even (of_int (2 ^ 53))"
    unfolding p by (rule round_half_even_mono)
  then have "round_half_even (x / double_ulp x) \<le> 2 ^ 53"
    unfolding round_half_even_int .
  then have "real_of_int (round_half_even (x / double_ulp x)) \<le> 2 powr 53"
    unfolding p by linarith
  then have "real_of_int (round_half_even (x / double_ulp x)) * double_ulp x
      \<le> 2 powr 53 * double_ulp x"
    using double_ulp_pos[of x] by (simp add: mult_right_mono)
  then show ?thesis using assms unfolding s u[symmetric] by (simp add: to_double_def)
qed

lemma to_double_lower:
  assumes "0 < x" "- 1022 \<le> \<lfloor>log 2 x\<rfloor>"
  shows "2 powr of_int (double_exponent x) \<le> to_double x"
proof -
  let ?e = "of_int (double_exponent x) :: real"
  have e: "double_exponent x = \<lfloor>log 2 x\<rfloor>"
    using assms by (simp add: double_exponent_def)
  have u: "double_ulp x = 2 powr (?e - 52)" by (simp add: double_ulp_def)
  have "2 powr ?e = 2 powr (52 + (?e - 52))"
    by (rule arg_cong[where f = "(powr) 2"]) simp
  also have "\<dots> = 2 powr 52 * 2 powr (?e - 52)" by (rule powr_add)
  finally have s: "2 powr ?e = 2 powr 52 * 2 powr (?e - 52)" .
  have p: "(2::real) powr 52 = of_int (2 ^ 52)"
    using powr_realpow[of "2::real" 52] by simp
  have "?e \<le> log 2 x" unfolding e by simp
  then have "2 powr ?e \<le> 2 powr log 2 x" by (simp add: powr_mono)
  then have "2 powr ?e \<le> x" using assms(1) by simp
  then have "2 powr 52 \<le> x / double_ulp x"
    unfolding s u by (simp add: field_simps)
  then have "round_half_even (of_int (2 ^ 52)) \<le> round_half_even (x / double_ulp x)"
    unfolding p by (rule round_half_even_mono)
  then have "2 ^ 52 \<le> round_half_even (x / double_ulp x)"
    unfolding round_half_even_int .
  then have "2 powr 52 \<le> real_of_int (round_half_even (x / double_ulp x))"
    unfolding p by linarith
  then have "2 powr 52 * double_ulp x
      \<le> real_of_int (round_half_even (x / double_ulp x)) * double_ulp x"
    using double_ulp_pos[of x] by (simp add: mult_right_mono)
  then show ?thesis using assms(1) unfolding s u[symmetric] by (simp add: to_double_def)
qed

lemma to_double_mono_pos:
  assumes "0 < x" "x \<le> y"
  shows "to_double x \<le> to_double y"
proof (cases "double_exponent x = double_exponent y")
  case True
  then have u: "double_ulp y = double_ulp x" by (simp add: double_ulp_def)
  have "x / double_ulp x \<le> y / double_ulp x"
    using assms(2) double_ulp_pos[of x] by (simp add: divide_right_mono)
  then have "round_half_even (x / double_ulp x) \<le> round_half_even (y / double_ulp x)"
    by (rule round_half_even_mono)
  then have "real_of_int (round_half_even (x / double_ulp x)) * double_ulp x
      \<le> real_of_int (round_half_even (y / double_ulp x)) * double_ulp x"
    using double_ulp_pos[of x] by (simp add: mult_right_mono)
  then show ?thesis using assms by (simp add: to_double_def u)
next
  case False
  with double_exponent_mono[OF assms] have lt: "double_exponent x < double_exponent y" by simp
  have y: "0 < y" using assms by simp
  have "- 1022 \<le> double_exponent x" by (simp add: double_exponent_def)
  with lt have "- 1022 < double_exponent y" by simp
  then have "- 1022 < \<lfloor>log 2 \<bar>y\<bar>\<rfloor>" unfolding double_exponent_def by linarith
  then have n: "- 1022 \<le> \<lfloor>log 2 y\<rfloor>" using y by simp
  have "to_double x \<le> 2 powr (of_int (double_exponent x) + 1)"
    using assms(1) by (rule to_double_upper)
  also have "\<dots> \<le> 2 powr of_int (double_exponent y)"
    using lt by (intro powr_mono) simp_all
  also have "\<dots> \<le> to_double y" using y n by (rule to_double_lower)
  finally show ?thesis .
qed

lemma to_double_mono:
  assumes "x \<le> y"
  shows "to_double x \<le> to_double y"
proof -
  consider "0 < x" | "x \<le> 0" "0 \<le> y" | "y < 0" by linarith
  then show ?thesis
  proof cases
    case 1
    then show ?thesis using assms by (rule to_double_mono_pos)
  next
    case 2
    have "0 \<le> to_double (- x)" using 2(1) by (intro to_double_nonneg) simp
    then have "to_double x \<le> 0" by (simp add: to_double_minus)
    also have "0 \<le> to_double y" using 2(2) by (rule to_double_nonneg)
    finally show ?thesis .
  next
    case 3
    then have "to_double (- y) \<le> to_double (- x)"
      using assms by (intro to_double_mono_pos) simp_all
    then show ?thesis by (simp add: to_double_minus)
  qed
qed

lemma to_double_exact:
  assumes "x / double_ulp x = of_int m"
  shows "to_double x = x"
proof (cases "x = 0")
  case True
  then show ?thesis by (simp add: to_double_zero)
next
  case False
  have "x = of_int m * double_ulp x"
    using assms double_ulp_pos[of x] by (simp add: field_simps)
  then show ?thesis
    using False unfolding to_double_def assms round_half_even_int by simp
qed

lemma to_double_int:
  assumes "\<bar>n\<bar> < 2 ^ 53"
  shows "to_double (of_int n) = of_int n"
proof (cases "n = 0")
  case True
  then show ?thesis by (simp add: to_double_zero)
next
  case False
  let ?x = "of_int n :: real"
  let ?e = "double_exponent ?x"
  have pos: "0 < \<bar>?x\<bar>" using False by simp
  have "\<bar>?x\<bar> < 2 powr 53"
    using assms powr_realpow[of "2::real" 53] by (simp flip: of_int_abs)
  then have "log 2 \<bar>?x\<bar> < 53" using pos by (simp add: log_less_iff)
  then have "\<lfloor>log 2 \<bar>?x\<bar>\<rfloor> \<le> 52" by linarith
  then have le: "?e \<le> 52" by (simp add: double_exponent_def)
  define k where "k = nat (52 - ?e)"
  have ke: "of_int ?e - 52 = - real k" using le by (simp add: k_def)
  have "double_ulp ?x = 2 powr (- real k)" unfolding double_ulp_def ke ..
  also have "\<dots> = 1 / 2 ^ k" by (simp add: powr_minus powr_realpow divide_simps)
  finally have u: "double_ulp ?x = 1 / 2 ^ k" .
  have "?x / double_ulp ?x = of_int (n * 2 ^ k)" unfolding u by simp
  then show ?thesis by (rule to_double_exact)
qed


section \<open>The boundaries of a grid\<close>

lemma cells_bounds:
  fixes S k :: int
  assumes "0 < S" "0 < k"
  defines "q \<equiv> (S + k - 1) div k"
  shows "1 \<le> q" "(q - 1) * k < S" "S \<le> q * k"
proof -
  have e: "S + k - 1 = q * k + (S + k - 1) mod k"
    unfolding q_def by simp
  have m: "0 \<le> (S + k - 1) mod k" "(S + k - 1) mod k < k"
    using assms(2) by simp_all
  have d: "(q - 1) * k = q * k - k"
    by (simp add: algebra_simps)
  show "(q - 1) * k < S" using e m d by linarith
  show u: "S \<le> q * k" using e m by linarith
  from u assms(1) have "0 < q * k" by linarith
  then have "0 < q" using assms(2) by (simp add: zero_less_mult_iff)
  then show "1 \<le> q" by simp
qed

text \<open>
  For a positive step the closed form in \<open>range_step\<close> is the slice: the elements of
  \<open>0, ..., n - 1\<close> at the positions that the step divides, which are the elements that it
  divides.
\<close>

lemma range_step_pos_filter:
  assumes "0 < k"
  shows "range_step n k = Inr (filter (\<lambda>x. x mod k = 0) [0..n - 1])"
proof -
  let ?q = "(n + k - 1) div k"
  let ?L = "map (\<lambda>i. int i * k) [0..<nat ?q]"
  let ?R = "filter (\<lambda>x. x mod k = 0) [0..n - 1]"
  have sl: "sorted_wrt (<) ?L"
    using assms by (simp add: sorted_wrt_map sorted_wrt_upt)
  have "sorted_wrt (<) [0..n - 1]"
    by (simp add: strict_sorted_iff)
  then have sr: "sorted_wrt (<) ?R" by (rule sorted_wrt_filter)
  have "set ?L = set ?R"
  proof (intro equalityI subsetI)
    fix x assume "x \<in> set ?L"
    then obtain i where i: "i < nat ?q" "x = int i * k" by auto
    then have pos: "0 < ?q" by simp
    have "0 < n"
    proof (rule ccontr)
      assume "\<not> 0 < n"
      then have "n + k - 1 < k" by simp
      moreover have "0 \<le> n + k - 1 \<or> n + k - 1 < 0" by linarith
      ultimately have "?q \<le> 0"
        using assms by (auto simp: div_pos_pos_trivial div_nonpos_pos_le0)
      with pos show False by simp
    qed
    from cells_bounds(2)[OF this assms] have b: "(?q - 1) * k < n" .
    have "int i \<le> ?q - 1" using i(1) by linarith
    then have "int i * k \<le> (?q - 1) * k" using assms by (simp add: mult_right_mono)
    with b have "x \<le> n - 1" using i(2) by linarith
    moreover have "0 \<le> x" using i(2) assms by simp
    moreover have "x mod k = 0" using i(2) by simp
    ultimately show "x \<in> set ?R" by simp
  next
    fix x assume "x \<in> set ?R"
    then have x: "0 \<le> x" "x \<le> n - 1" "x mod k = 0" by simp_all
    have e: "x = int (nat (x div k)) * k"
      using x(1,3) assms by (simp add: pos_imp_zdiv_nonneg_iff mod_eq_0_iff_dvd)
    have "(x + k) div k \<le> ?q"
      using x(2) assms by (intro zdiv_mono1) simp_all
    then have "x div k + 1 \<le> ?q" using assms by simp
    moreover have "0 \<le> x div k"
      using x(1) assms by (simp add: pos_imp_zdiv_nonneg_iff)
    ultimately have "nat (x div k) < nat ?q" by linarith
    with e show "x \<in> set ?L" by (metis (no_types, lifting) atLeast0LessThan image_eqI lessThan_iff set_map set_upt)
  qed
  with sl sr have "?L = ?R"
    by (metis strict_sorted_equal)
  then show ?thesis using assms by (simp add: range_step_def)
qed

lemma split_into_sectors_pos:
  assumes "0 < r * m"
  shows "split_into_sectors S r m =
           Inr (grid_bounds S (r * m),
                map (\<lambda>key. (key, [])) (grid_keys (int (length (grid_bounds S (r * m))))))"
  using assms
  by (auto simp: split_into_sectors_def range_step_def grid_bounds_def grid_keys_def
      Let_def map_concat comp_def)

lemma length_grid_bounds:
  "0 < S \<Longrightarrow> 0 < k \<Longrightarrow> length (grid_bounds S k) = Suc (nat ((S + k - 1) div k))"
  by (simp add: grid_bounds_def)

lemma grid_bounds_nth:
  "i < nat ((S + k - 1) div k) \<Longrightarrow> grid_bounds S k ! i = int i * k"
  by (simp add: grid_bounds_def nth_append)

lemma grid_bounds_last_nth:
  "grid_bounds S k ! nat ((S + k - 1) div k) = S"
  by (simp add: grid_bounds_def nth_append)

lemma grid_bounds_length_ge2: "0 < S \<Longrightarrow> 0 < k \<Longrightarrow> 2 \<le> length (grid_bounds S k)"
  using cells_bounds(1)[of S k] by (simp add: length_grid_bounds)

lemma grid_bounds_zero: "0 < S \<Longrightarrow> 0 < k \<Longrightarrow> grid_bounds S k ! 0 = 0"
  using cells_bounds(1)[of S k] grid_bounds_nth[of 0 S k] by simp

lemma grid_bounds_step:
  assumes "0 < S" "0 < k" "Suc (Suc i) < length (grid_bounds S k)"
  shows "grid_bounds S k ! Suc i - grid_bounds S k ! i = k"
proof -
  have "Suc i < nat ((S + k - 1) div k)" using assms by (simp add: length_grid_bounds)
  then show ?thesis by (simp add: grid_bounds_nth algebra_simps)
qed

lemma grid_bounds_last_step:
  assumes "0 < S" "0 < k"
  shows "0 < S - grid_bounds S k ! (length (grid_bounds S k) - 2)"
        "S - grid_bounds S k ! (length (grid_bounds S k) - 2) \<le> k"
proof -
  let ?q = "(S + k - 1) div k"
  have q: "1 \<le> ?q" "(?q - 1) * k < S" "S \<le> ?q * k"
    using cells_bounds[OF assms] by simp_all
  have l: "length (grid_bounds S k) - 2 = nat ?q - 1"
    using assms by (simp add: length_grid_bounds)
  have n: "grid_bounds S k ! (nat ?q - 1) = int (nat ?q - 1) * k"
    using q(1) by (intro grid_bounds_nth) simp
  have i: "int (nat ?q - 1) = ?q - 1" using q(1) by simp
  have d: "(?q - 1) * k = ?q * k - k" by (simp add: algebra_simps)
  show "0 < S - grid_bounds S k ! (length (grid_bounds S k) - 2)"
    using q(2) l n i by simp
  show "S - grid_bounds S k ! (length (grid_bounds S k) - 2) \<le> k"
    using q(3) d l n i by simp
qed

lemma grid_bounds_sorted:
  assumes "0 < S" "0 < k"
  shows "sorted_wrt (<) (grid_bounds S k)"
proof -
  let ?q = "(S + k - 1) div k"
  have q: "1 \<le> ?q" "(?q - 1) * k < S"
    using cells_bounds[OF assms] by simp_all
  have a: "sorted_wrt (<) (map (\<lambda>i. int i * k) [0..<nat ?q])"
    using assms(2) by (simp add: sorted_wrt_map sorted_wrt_upt) 
  have b: "int i * k < S" if "i < nat ?q" for i
  proof -
    have "int i \<le> ?q - 1" using that by linarith
    then have "int i * k \<le> (?q - 1) * k" using assms(2) by (simp add: mult_right_mono)
    with q(2) show ?thesis by linarith
  qed
  show ?thesis unfolding grid_bounds_def
    using a b by (auto simp: sorted_wrt_append)
qed

section \<open>The field of a coordinate\<close>

text \<open>
  \<open>field_of\<close> is the index that \<^verbatim>\<open>map_coordinate\<close> calls \<^verbatim>\<open>field\<close>. Two coordinates whose
  fields are two or more apart have a whole cell between them.
\<close>

lemma first_greater_Some:
  "first_greater bs p ix = Some j \<Longrightarrow>
     ix \<le> j \<and> j - ix < length bs \<and> p < real_of_int (bs ! (j - ix)) \<and>
     (\<forall>i < j - ix. real_of_int (bs ! i) \<le> p)"
proof (induction bs arbitrary: ix)
  case Nil
  then show ?case by simp
next
  case (Cons b bs)
  show ?case
  proof (cases "real_of_int b > p")
    case True
    with Cons.prems show ?thesis by simp
  next
    case False
    with Cons.prems have r: "first_greater bs p (Suc ix) = Some j" by simp
    from Cons.IH[OF r] have h: "Suc ix \<le> j" "j - Suc ix < length bs"
      "p < real_of_int (bs ! (j - Suc ix))" "\<forall>i < j - Suc ix. real_of_int (bs ! i) \<le> p"
      by simp_all
    from h(1) have e: "j - ix = Suc (j - Suc ix)" by simp
    have "real_of_int ((b # bs) ! i) \<le> p" if "i < j - ix" for i
      using that False h(4) e by (cases i) simp_all
    then show ?thesis using h e by simp
  qed
qed

lemma first_greater_None:
  "first_greater bs p ix = None \<Longrightarrow> \<forall>b \<in> set bs. real_of_int b \<le> p"
  by (induction bs arbitrary: ix) (auto split: if_splits)

lemma map_coordinate_field:
  "bs \<noteq> [] \<Longrightarrow> map_coordinate bs p = (int (field_of bs p) - 1, int (field_of bs p))"
  by (cases bs) (simp_all add: map_coordinate_def field_of_def Let_def split: option.splits)

lemma field_of_upper: "bs \<noteq> [] \<Longrightarrow> field_of bs p \<le> length bs - 1"
  using first_greater_Some[of bs p 0]
  by (auto simp: field_of_def split: option.splits)

lemma field_of_lower:
  assumes "2 \<le> length bs" "bs ! 0 = 0" "0 \<le> p"
  shows "1 \<le> field_of bs p"
proof (cases "first_greater bs p 0")
  case None
  then show ?thesis using assms(1) by (simp add: field_of_def)
next
  case (Some j)
  from first_greater_Some[OF Some] have "p < real_of_int (bs ! j)" by simp
  with assms(2,3) have "j \<noteq> 0" by (cases j) auto
  then show ?thesis using Some by (simp add: field_of_def)
qed

lemma field_far:
  assumes step: "\<forall>i. Suc (Suc i) < length bs \<longrightarrow> bs ! Suc i - bs ! i = k"
    and far: "Suc (field_of bs p) < field_of bs q"
  shows "real_of_int k < q - p"
proof -
  have ne: "bs \<noteq> []" using far by (auto simp: field_of_def)
  have ub: "field_of bs q \<le> length bs - 1" using ne by (rule field_of_upper)
  with far have in_range: "Suc (Suc (field_of bs p)) < length bs" by linarith
  obtain j where j: "first_greater bs p 0 = Some j"
    using in_range by (cases "first_greater bs p 0") (auto simp: field_of_def)
  then have fp: "field_of bs p = j" by (simp add: field_of_def)
  from first_greater_Some[OF j] have lo: "p < real_of_int (bs ! j)" by simp
  have hi: "real_of_int (bs ! Suc j) \<le> q"
  proof (cases "first_greater bs q 0")
    case None
    from in_range fp have "bs ! Suc j \<in> set bs" by simp
    with first_greater_None[OF None] show ?thesis by blast
  next
    case (Some i)
    then have "field_of bs q = i" by (simp add: field_of_def)
    with far fp have "Suc j < i" by simp
    with first_greater_Some[OF Some] show ?thesis by simp
  qed
  from step in_range fp have "bs ! Suc j - bs ! j = k" by simp
  then have "real_of_int (bs ! Suc j) - real_of_int (bs ! j) = real_of_int k"
    by (metis of_int_diff)
  with lo hi show ?thesis by linarith
qed

lemma field_near:
  assumes "\<forall>i. Suc (Suc i) < length bs \<longrightarrow> bs ! Suc i - bs ! i = k"
    and "\<bar>p - q\<bar> < real_of_int k"
  shows "field_of bs q \<le> Suc (field_of bs p)" "field_of bs p \<le> Suc (field_of bs q)"
proof -
  show "field_of bs q \<le> Suc (field_of bs p)"
    using field_far[OF assms(1), of p q] assms(2) by (cases "Suc (field_of bs p) < field_of bs q") auto
  show "field_of bs p \<le> Suc (field_of bs q)"
    using field_far[OF assms(1), of q p] assms(2) by (cases "Suc (field_of bs q) < field_of bs p") auto
qed

section \<open>Keys and sector locations\<close>

lemma set_grid_keys: "set (grid_keys n) = {0..n} \<times> {0..n}"
  by (auto simp: grid_keys_def)

lemma distinct_grid_keys: "distinct (grid_keys n)"
  unfolding grid_keys_def
  by (rule distinct_concat) (auto simp: distinct_map inj_on_def)

lemma set_sector_locs:
  "bs \<noteq> [] \<Longrightarrow> set (sector_locs bs d) =
     {int (field_of bs (fst (coords d))) - 1, int (field_of bs (fst (coords d)))} \<times>
     {int (field_of bs (snd (coords d))) - 1, int (field_of bs (snd (coords d)))}"
  by (auto simp: sector_locs_def map_coordinate_field Let_def)

lemma distinct_sector_locs: "bs \<noteq> [] \<Longrightarrow> distinct (sector_locs bs d)"
  by (simp add: sector_locs_def map_coordinate_field Let_def)

lemma sector_locs_in_grid:
  assumes "2 \<le> length bs" "bs ! 0 = 0" "0 \<le> fst (coords d)" "0 \<le> snd (coords d)"
  shows "set (sector_locs bs d) \<subseteq> set (grid_keys (int (length bs)))"
proof -
  have ne: "bs \<noteq> []" using assms(1) by auto
  note lx = field_of_lower[OF assms(1,2,3)] and ux = field_of_upper[OF ne, of "fst (coords d)"]
  note ly = field_of_lower[OF assms(1,2,4)] and uy = field_of_upper[OF ne, of "snd (coords d)"]
  show ?thesis
    using lx ux ly uy by (auto simp: set_sector_locs[OF ne] set_grid_keys)
qed

section \<open>Filling the sectors\<close>

text \<open>
  When every location of every drone is a key, the assignment raises no exception, keeps
  the keys, and appends to each sector the drones located in it, in their order.
\<close>

lemma append_at_present:
  "map_of secs loc = Some ds \<Longrightarrow> append_at secs loc d = Inr (AList.update loc (ds @ [d]) secs)"
  by (simp add: append_at_def)

lemma append_all_ok:
  assumes "set locs \<subseteq> fst ` set secs" "distinct locs"
  shows "\<exists>secs'. append_all secs locs d = Inr secs' \<and> map fst secs' = map fst secs \<and>
           (\<forall>key. map_of secs' key =
              (if key \<in> set locs then map_option (\<lambda>old. old @ [d]) (map_of secs key)
               else map_of secs key))"
  using assms
proof (induction locs arbitrary: secs)
  case Nil
  then show ?case by simp
next
  case (Cons loc locs)
  from Cons.prems(1) have "loc \<in> fst ` set secs" by simp
  then obtain old where old: "map_of secs loc = Some old"
    by (metis domD dom_map_of_conv_image_fst)
  let ?s = "AList.update loc (old @ [d]) secs"
  have keys: "map fst ?s = map fst secs"
    using \<open>loc \<in> fst ` set secs\<close> by (simp add: update_keys)
  have sub: "set locs \<subseteq> fst ` set ?s"
    using Cons.prems(1) keys by (metis list.set_map set_subset_Cons subset_trans)
  from Cons.prems(2) have dl: "distinct locs" "loc \<notin> set locs" by simp_all
  from Cons.IH[OF sub dl(1)] obtain secs' where s':
    "append_all ?s locs d = Inr secs'" "map fst secs' = map fst ?s"
    "\<forall>key. map_of secs' key =
        (if key \<in> set locs then map_option (\<lambda>old. old @ [d]) (map_of ?s key)
         else map_of ?s key)"
    by blast
  have "append_all secs (loc # locs) d = Inr secs'"
    using old s'(1) by (simp add: append_at_present)
  moreover have "map fst secs' = map fst secs" using s'(2) keys by simp
  moreover have "map_of secs' key =
      (if key \<in> set (loc # locs) then map_option (\<lambda>old. old @ [d]) (map_of secs key)
       else map_of secs key)" for key
  proof -
    have k: "map_of secs' key =
        (if key \<in> set locs then map_option (\<lambda>old. old @ [d]) (map_of ?s key)
         else map_of ?s key)"
      using s'(3) by blast
    show ?thesis
    proof (cases "key = loc")
      case True
      then show ?thesis using k dl(2) old by (simp add: update_conv')
    next
      case False
      then show ?thesis using k by (simp add: update_conv')
    qed
  qed
  ultimately show ?case by blast
qed

lemma assign_drones_ok:
  assumes "\<forall>d \<in> set ds. set (sector_locs bs d) \<subseteq> fst ` set secs \<and> distinct (sector_locs bs d)"
  shows "\<exists>secs'. assign_drones bs secs ds = Inr secs' \<and> map fst secs' = map fst secs \<and>
           (\<forall>key. map_of secs' key =
              map_option (\<lambda>old. old @ filter (\<lambda>d. key \<in> set (sector_locs bs d)) ds)
                (map_of secs key))"
  using assms
proof (induction ds arbitrary: secs)
  case Nil
  then show ?case by (simp add: option.map_ident)
next
  case (Cons d ds)
  from Cons.prems have d: "set (sector_locs bs d) \<subseteq> fst ` set secs" "distinct (sector_locs bs d)"
    by simp_all
  from append_all_ok[OF d] obtain s1 where s1:
    "append_all secs (sector_locs bs d) d = Inr s1" "map fst s1 = map fst secs"
    "\<forall>key. map_of s1 key =
        (if key \<in> set (sector_locs bs d) then map_option (\<lambda>old. old @ [d]) (map_of secs key)
         else map_of secs key)"
    by blast
  have "fst ` set s1 = fst ` set secs" using s1(2) by (metis list.set_map)
  with Cons.prems have
    "\<forall>d \<in> set ds. set (sector_locs bs d) \<subseteq> fst ` set s1 \<and> distinct (sector_locs bs d)"
    by simp
  from Cons.IH[OF this] obtain s2 where s2:
    "assign_drones bs s1 ds = Inr s2" "map fst s2 = map fst s1"
    "\<forall>key. map_of s2 key =
        map_option (\<lambda>old. old @ filter (\<lambda>d. key \<in> set (sector_locs bs d)) ds) (map_of s1 key)"
    by blast
  have "assign_drones bs secs (d # ds) = Inr s2" using s1(1) s2(1) by simp
  moreover have "map fst s2 = map fst secs" using s1(2) s2(2) by simp
  moreover have "map_of s2 key =
      map_option (\<lambda>old. old @ filter (\<lambda>d. key \<in> set (sector_locs bs d)) (d # ds))
        (map_of secs key)" for key
  proof -
    have a: "map_of s1 key =
        (if key \<in> set (sector_locs bs d) then map_option (\<lambda>old. old @ [d]) (map_of secs key)
         else map_of secs key)"
      using s1(3) by blast
    have b: "map_of s2 key =
        map_option (\<lambda>old. old @ filter (\<lambda>d. key \<in> set (sector_locs bs d)) ds) (map_of s1 key)"
      using s2(3) by blast
    show ?thesis unfolding b a by (cases "map_of secs key") simp_all
  qed
  ultimately show ?case by blast
qed

section \<open>The distance of two points\<close>

lemma to_double_abs_le:
  assumes "\<bar>x\<bar> \<le> of_int n" "\<bar>n\<bar> < 2 ^ 53"
  shows "\<bar>to_double x\<bar> \<le> of_int n"
proof -
  have m: "\<bar>- n\<bar> < 2 ^ 53" using assms(2) by simp
  have "to_double x \<le> to_double (of_int n)"
    using assms(1) by (intro to_double_mono) linarith
  moreover have "to_double (of_int (- n)) \<le> to_double x"
    using assms(1) by (intro to_double_mono) simp
  ultimately show ?thesis
    using to_double_int[OF assms(2)] to_double_int[OF m] by simp
qed

lemma double_of_bounded:
  assumes "\<bar>x\<bar> \<le> of_int n" "\<bar>n\<bar> < 2 ^ 53"
  shows "double_of x = Finite (to_double x)"
proof -
  have "\<bar>to_double x\<bar> \<le> of_int n" using assms by (rule to_double_abs_le)
  moreover have "real_of_int n < 2 ^ 53"
  proof -
    have "n < 2 ^ 53" using assms(2) by linarith
    then have "real_of_int n < real_of_int (2 ^ 53)" by (rule iffD2[OF of_int_less_iff])
    then show ?thesis by simp
  qed
  moreover have "(2::real) ^ 53 < 2 ^ 1024" by (rule power_strict_increasing) simp_all
  ultimately have "\<not> 2 ^ 1024 \<le> to_double x" "\<not> to_double x \<le> - (2 ^ 1024)" by linarith+
  then show ?thesis by (simp add: double_of_def Let_def)
qed

lemma double_of_nonneg:
  assumes "0 \<le> x"
  shows "double_of x = PosInf \<or> double_of x = Finite (to_double x)"
proof -
  have "0 \<le> to_double x" using assms by (rule to_double_nonneg)
  moreover have "(0::real) < 2 ^ 1024" by simp
  ultimately have "\<not> to_double x \<le> - (2 ^ 1024)" by linarith
  then show ?thesis by (simp add: double_of_def Let_def)
qed

lemma pow_2_double_of_minus: "pow_2 (double_of (- x)) = pow_2 (double_of x)"
proof -
  have p: "(0::real) < 2 ^ 1024" by simp
  show ?thesis
    unfolding double_of_def Let_def to_double_minus using p by auto
qed

lemma dist_pts_sym: "dist_pts p q = dist_pts q p"
proof -
  have "fst p - fst q = - (fst q - fst p)" "snd p - snd q = - (snd q - snd p)" by simp_all
  then show ?thesis unfolding dist_pts_def by (simp only: pow_2_double_of_minus)
qed

lemma conflicting_sym: "conflicting p q r = conflicting q p r"
  unfolding conflicting_def dist_pts_sym[of p q] ..

lemma at_least_not_less: "at_least c d \<Longrightarrow> r \<le> c \<Longrightarrow> \<not> double_less d r"
  by (auto simp: at_least_def)

lemma pow_2_far:
  assumes "c \<le> \<bar>x\<bar>" "0 \<le> c" "pow_2 (double_of x) = Inr s"
  shows "at_least (to_double (to_double c * to_double c)) s"
proof -
  have c0: "0 \<le> to_double c" using assms(2) by (rule to_double_nonneg)
  have big: "to_double c \<le> \<bar>to_double x\<bar>"
  proof (cases "0 \<le> x")
    case True
    then have "to_double c \<le> to_double x" using assms(1) by (intro to_double_mono) simp
    then show ?thesis by linarith
  next
    case False
    then have "to_double c \<le> to_double (- x)" using assms(1) by (intro to_double_mono) simp
    then show ?thesis by (simp add: to_double_minus)
  qed
  have sq: "to_double c * to_double c \<le> to_double x * to_double x"
  proof -
    have "to_double c * to_double c \<le> \<bar>to_double x\<bar> * \<bar>to_double x\<bar>"
      using c0 big by (intro mult_mono) simp_all
    then show ?thesis by (simp add: abs_mult_self_eq)
  qed
  have "double_of x = PosInf \<or> double_of x = NegInf \<or> double_of x = Finite (to_double x)"
    by (simp add: double_of_def Let_def)
  then consider "double_of x = PosInf" | "double_of x = NegInf"
    | "double_of x = Finite (to_double x)" by blast
  then show ?thesis
  proof cases
    case 1
    with assms(3) show ?thesis by (simp add: at_least_def)
  next
    case 2
    with assms(3) show ?thesis by (simp add: at_least_def)
  next
    case 3
    let ?y = "to_double x * to_double x"
    have "0 \<le> ?y" by simp
    from double_of_nonneg[OF this] 3 assms(3) have "s = Finite (to_double ?y)" by auto
    moreover have "to_double (to_double c * to_double c) \<le> to_double ?y"
      using sq by (rule to_double_mono)
    ultimately show ?thesis by (simp add: at_least_def)
  qed
qed

lemma pow_2_nonneg:
  assumes "pow_2 (double_of x) = Inr s"
  shows "at_least 0 s"
  using pow_2_far[of 0 x s] assms by (simp add: to_double_zero)

lemma pow_2_error: "pow_2 (double_of x) = Inl e \<Longrightarrow> e = OverflowError"
  by (auto simp: double_of_def Let_def split: if_splits double.splits)

lemma double_add_finite_at_least:
  assumes "c \<le> v + w" "0 \<le> c"
  shows "at_least (to_double c) (double_add (Finite v) (Finite w))"
proof -
  have "0 \<le> v + w" using assms by simp
  from double_of_nonneg[OF this]
  have "double_of (v + w) = PosInf \<or> double_of (v + w) = Finite (to_double (v + w))" .
  moreover have "to_double c \<le> to_double (v + w)"
    using assms(1) by (rule to_double_mono)
  ultimately show ?thesis by (auto simp: at_least_def)
qed

lemma double_add_at_least:
  assumes "at_least c a" "at_least 0 b" "0 \<le> c"
  shows "at_least (to_double c) (double_add a b)"
proof -
  from assms(1) consider "a = PosInf" | v where "a = Finite v" "c \<le> v"
    unfolding at_least_def by blast
  then show ?thesis
  proof cases
    case 1
    from assms(2) have "b = PosInf \<or> (\<exists>w. b = Finite w)" unfolding at_least_def by blast
    with 1 show ?thesis by (auto simp: at_least_def)
  next
    case 2
    from assms(2) consider "b = PosInf" | w where "b = Finite w" "0 \<le> w"
      unfolding at_least_def by blast
    then show ?thesis
    proof cases
      case 1
      with 2 show ?thesis by (simp add: at_least_def)
    next
      case b: 2
      have "c \<le> v + w" using 2(2) b(2) by simp
      from double_add_finite_at_least[OF this assms(3)] show ?thesis
        unfolding 2(1) b(1) .
    qed
  qed
qed

lemma double_add_at_least':
  assumes "at_least 0 a" "at_least c b" "0 \<le> c"
  shows "at_least (to_double c) (double_add a b)"
proof -
  from assms(2) consider "b = PosInf" | w where "b = Finite w" "c \<le> w"
    unfolding at_least_def by blast
  then show ?thesis
  proof cases
    case 1
    from assms(1) have "a = PosInf \<or> (\<exists>v. a = Finite v)" unfolding at_least_def by blast
    with 1 show ?thesis by (auto simp: at_least_def)
  next
    case 2
    from assms(1) consider "a = PosInf" | v where "a = Finite v" "0 \<le> v"
      unfolding at_least_def by blast
    then show ?thesis
    proof cases
      case 1
      with 2 show ?thesis by (simp add: at_least_def)
    next
      case a: 2
      have "c \<le> v + w" using 2(2) a(2) by simp
      from double_add_finite_at_least[OF this assms(3)] show ?thesis
        unfolding 2(1) a(1) .
    qed
  qed
qed

lemma pow_half_at_least:
  assumes "at_least c s" "0 \<le> c"
  shows "\<exists>d. pow_half s = Inr d \<and> at_least (to_double (sqrt c)) d"
proof -
  have "at_least (to_double (sqrt c)) (Finite (to_double (sqrt v)))" if "c \<le> v" for v
    using that by (simp add: at_least_def to_double_mono)
  then show ?thesis using assms by (auto simp: at_least_def)
qed

lemma dist_pts_lower:
  assumes far: "c \<le> \<bar>fst p - fst q\<bar> \<or> c \<le> \<bar>snd p - snd q\<bar>"
    and c: "0 \<le> c" "to_double c = c" "to_double (c * c) = c * c"
    and d: "dist_pts p q = Inr d"
  shows "at_least c d"
proof -
  have k0: "0 \<le> c * c" by simp
  from d obtain sx sy where s:
    "pow_2 (double_of (fst p - fst q)) = Inr sx" "pow_2 (double_of (snd p - snd q)) = Inr sy"
    "pow_half (double_add (double_add (Finite 0) sx) sy) = Inr d"
    unfolding dist_pts_def by (auto split: sum.splits)
  have z: "at_least 0 (Finite 0)" by (simp add: at_least_def)
  have x0: "at_least 0 sx" using s(1) by (rule pow_2_nonneg)
  have y0: "at_least 0 sy" using s(2) by (rule pow_2_nonneg)
  have x1: "at_least 0 (double_add (Finite 0) sx)"
    using double_add_at_least'[OF z x0] by (simp add: to_double_zero)
  have "at_least (c * c) (double_add (double_add (Finite 0) sx) sy)"
    using far
  proof
    assume "c \<le> \<bar>fst p - fst q\<bar>"
    from pow_2_far[OF this c(1) s(1)] have "at_least (c * c) sx" unfolding c(2) c(3) .
    from double_add_at_least'[OF z this k0]
    have "at_least (c * c) (double_add (Finite 0) sx)" unfolding c(3) .
    from double_add_at_least[OF this y0 k0] show ?thesis unfolding c(3) .
  next
    assume "c \<le> \<bar>snd p - snd q\<bar>"
    from pow_2_far[OF this c(1) s(2)] have "at_least (c * c) sy" unfolding c(2) c(3) .
    from double_add_at_least'[OF x1 this k0] show ?thesis unfolding c(3) .
  qed
  from pow_half_at_least[OF this k0] s(3) have l: "at_least (to_double (sqrt (c * c))) d" by auto
  have e: "sqrt (c * c) = c" using c(1) by simp
  from l show ?thesis unfolding e c(2) .
qed

lemma dist_pts_nonneg: "dist_pts p q = Inr d \<Longrightarrow> at_least 0 d"
  by (rule dist_pts_lower[of 0 p q]) (simp_all add: to_double_zero)

lemma dist_pts_error: "dist_pts p q = Inl e \<Longrightarrow> e = OverflowError"
proof -
  assume e: "dist_pts p q = Inl e"
  show ?thesis
  proof (cases "pow_2 (double_of (fst p - fst q))")
    case (Inl a)
    with e pow_2_error[OF Inl] show ?thesis by (simp add: dist_pts_def)
  next
    case sx: (Inr sx)
    show ?thesis
    proof (cases "pow_2 (double_of (snd p - snd q))")
      case (Inl a)
      with e sx pow_2_error[OF Inl] show ?thesis by (simp add: dist_pts_def)
    next
      case sy: (Inr sy)
      have z: "at_least 0 (Finite 0)" by (simp add: at_least_def)
      have "at_least 0 (double_add (Finite 0) sx)"
        using double_add_at_least'[OF z pow_2_nonneg[OF sx]] by (simp add: to_double_zero)
      from double_add_at_least[OF this pow_2_nonneg[OF sy]]
      have "at_least 0 (double_add (double_add (Finite 0) sx) sy)" by (simp add: to_double_zero)
      from pow_half_at_least[OF this] e sx sy show ?thesis by (auto simp: dist_pts_def)
    qed
  qed
qed

lemma conflicting_nonpositive: "r \<le> 0 \<Longrightarrow> \<not> conflicting p q r"
  by (auto simp: conflicting_def split: sum.splits dest!: dist_pts_nonneg
      dest: at_least_not_less)

lemma conflicting_within:
  assumes "conflicting p q r" "r \<le> 5000"
  shows "\<bar>fst p - fst q\<bar> < 5000 \<and> \<bar>snd p - snd q\<bar> < 5000"
proof (rule ccontr)
  assume "\<not> (\<bar>fst p - fst q\<bar> < 5000 \<and> \<bar>snd p - snd q\<bar> < 5000)"
  then have far: "5000 \<le> \<bar>fst p - fst q\<bar> \<or> 5000 \<le> \<bar>snd p - snd q\<bar>" by linarith
  from assms(1) obtain d where d: "dist_pts p q = Inr d" "double_less d r"
    unfolding conflicting_def by (auto split: sum.splits)
  have a: "to_double 5000 = 5000" using to_double_int[of 5000] by simp
  have b: "to_double (5000 * 5000) = 5000 * 5000" using to_double_int[of 25000000] by simp
  from dist_pts_lower[OF far _ a b d(1)] have "at_least 5000 d" by simp
  from at_least_not_less[OF this assms(2)] d(2) show False by simp
qed

lemma double_of_int:
  assumes "\<bar>n\<bar> < 2 ^ 53"
  shows "double_of (of_int n) = Finite (of_int n)"
proof -
  have "\<bar>real_of_int n\<bar> \<le> of_int \<bar>n\<bar>" by simp
  moreover have "\<bar>\<bar>n\<bar>\<bar> < 2 ^ 53" using assms by simp
  ultimately have "double_of (of_int n) = Finite (to_double (of_int n))"
    by (rule double_of_bounded)
  then show ?thesis unfolding to_double_int[OF assms] .
qed

lemma square_bound:
  fixes n :: int
  assumes "\<bar>n\<bar> \<le> 2 ^ 25"
  shows "\<bar>n * n\<bar> \<le> 2 ^ 50"
proof -
  have "\<bar>n\<bar> * \<bar>n\<bar> \<le> 2 ^ 25 * 2 ^ 25" using assms by (intro mult_mono) simp_all
  then show ?thesis by (simp add: abs_mult)
qed

lemma square_bound_real:
  fixes x :: real
  assumes "\<bar>x\<bar> \<le> 2 ^ 25"
  shows "\<bar>x * x\<bar> \<le> 2 ^ 50"
proof -
  have "\<bar>x\<bar> * \<bar>x\<bar> \<le> 2 ^ 25 * 2 ^ 25" using assms by (intro mult_mono) simp_all
  then show ?thesis by (simp add: abs_mult)
qed

lemma pow_2_int:
  assumes "\<bar>n\<bar> \<le> 2 ^ 25"
  shows "pow_2 (double_of (of_int n)) = Inr (Finite (of_int (n * n)))"
proof -
  have a: "\<bar>n\<bar> < 2 ^ 53" using assms by simp
  have b: "\<bar>n * n\<bar> < 2 ^ 53" using square_bound[OF assms] by simp
  have "real_of_int n * real_of_int n = of_int (n * n)" by simp
  then show ?thesis
    unfolding double_of_int[OF a] pow_2.simps using double_of_int[OF b] by simp
qed

lemma dist_pts_int:
  assumes "\<bar>a - c\<bar> \<le> 2 ^ 25" "\<bar>b - d\<bar> \<le> 2 ^ 25"
  shows "dist_pts (of_int a, of_int b) (of_int c, of_int d) =
           Inr (Finite (to_double (euclidean (of_int a, of_int b) (of_int c, of_int d))))"
proof -
  let ?sx = "(a - c) * (a - c)" and ?sy = "(b - d) * (b - d)"
  have x: "pow_2 (double_of (real_of_int a - real_of_int c)) = Inr (Finite (of_int ?sx))"
    using pow_2_int[OF assms(1)] by simp
  have y: "pow_2 (double_of (real_of_int b - real_of_int d)) = Inr (Finite (of_int ?sy))"
    using pow_2_int[OF assms(2)] by simp
  have bx: "\<bar>?sx\<bar> < 2 ^ 53" using square_bound[OF assms(1)] by simp
  have bs: "\<bar>?sx + ?sy\<bar> < 2 ^ 53"
    using square_bound[OF assms(1)] square_bound[OF assms(2)] by simp
  have s1: "double_add (Finite 0) (Finite (of_int ?sx)) = Finite (of_int ?sx)"
    using double_of_int[OF bx] by simp
  have s2: "double_add (Finite (of_int ?sx)) (Finite (of_int ?sy)) = Finite (of_int (?sx + ?sy))"
    using double_of_int[OF bs] by simp
  have nn: "\<not> real_of_int (?sx + ?sy) < 0" by (simp add: not_less)
  have e: "euclidean (of_int a, of_int b) (of_int c, of_int d) = sqrt (of_int (?sx + ?sy))"
    by (simp add: euclidean_def power2_eq_square)
  show ?thesis
    unfolding dist_pts_def fst_conv snd_conv x y sum.case s1 s2 pow_half.simps e
    using nn by simp
qed

lemma dist_pts_bounded:
  assumes "\<bar>fst p - fst q\<bar> \<le> 2 ^ 25" "\<bar>snd p - snd q\<bar> \<le> 2 ^ 25"
  shows "\<exists>v. dist_pts p q = Inr (Finite v)"
proof -
  have pw: "\<exists>s. pow_2 (double_of x) = Inr (Finite s) \<and> 0 \<le> s \<and> s \<le> 2 ^ 50"
    if "\<bar>x\<bar> \<le> 2 ^ 25" for x :: real
  proof -
    let ?a = "to_double x"
    have "\<bar>x\<bar> \<le> of_int (2 ^ 25)" using that by simp
    then have a: "double_of x = Finite ?a" "\<bar>?a\<bar> \<le> of_int (2 ^ 25)"
      by (rule double_of_bounded, simp, rule to_double_abs_le, simp)
    from a(2) have "\<bar>?a * ?a\<bar> \<le> of_int (2 ^ 50)" using square_bound_real[of ?a] by simp
    then have s: "double_of (?a * ?a) = Finite (to_double (?a * ?a))"
      "\<bar>to_double (?a * ?a)\<bar> \<le> of_int (2 ^ 50)"
      by (rule double_of_bounded, simp, rule to_double_abs_le, simp)
    have "0 \<le> to_double (?a * ?a)" by (intro to_double_nonneg) simp
    with s show ?thesis unfolding a(1) by simp
  qed
  from pw[OF assms(1)] obtain sx where sx:
    "pow_2 (double_of (fst p - fst q)) = Inr (Finite sx)" "0 \<le> sx" "sx \<le> 2 ^ 50" by blast
  from pw[OF assms(2)] obtain sy where sy:
    "pow_2 (double_of (snd p - snd q)) = Inr (Finite sy)" "0 \<le> sy" "sy \<le> 2 ^ 50" by blast
  have "\<bar>0 + sx\<bar> \<le> of_int (2 ^ 50)" using sx by simp
  then have t: "double_of (0 + sx) = Finite (to_double (0 + sx))"
    "\<bar>to_double (0 + sx)\<bar> \<le> of_int (2 ^ 50)"
    by (rule double_of_bounded, simp, rule to_double_abs_le, simp)
  have t0: "0 \<le> to_double (0 + sx)" using sx(2) by (intro to_double_nonneg) simp
  let ?t = "to_double (0 + sx)"
  have "\<bar>?t + sy\<bar> \<le> of_int (2 ^ 51)" using t(2) t0 sy by simp
  then have w: "double_of (?t + sy) = Finite (to_double (?t + sy))"
    by (rule double_of_bounded) simp
  have w0: "0 \<le> to_double (?t + sy)" using t0 sy(2) by (intro to_double_nonneg) simp
  have "dist_pts p q = Inr (Finite (to_double (sqrt (to_double (?t + sy)))))"
    unfolding dist_pts_def sx(1) sy(1) sum.case double_add.simps t(1) w pow_half.simps
    using w0 by simp
  then show ?thesis by blast
qed

section \<open>What the scanner returns\<close>

lemma close_pairs_set:
  "set (close_pairs ds r) =
     {(ds ! i, ds ! j) | i j. i < j \<and> j < length ds \<and>
        conflicting (coords (ds ! i)) (coords (ds ! j)) r}"
proof (induction ds)
  case Nil
  then show ?case by simp
next
  case (Cons a ds)
  let ?R = "{((a # ds) ! i, (a # ds) ! j) | i j. i < j \<and> j < length (a # ds) \<and>
        conflicting (coords ((a # ds) ! i)) (coords ((a # ds) ! j)) r}"
  let ?H = "Pair a ` {b \<in> set ds. conflicting (coords a) (coords b) r}"
  let ?T = "set (close_pairs ds r)"
  have split: "set (close_pairs (a # ds) r) = ?H \<union> ?T"
    by simp
  have inR: "((a # ds) ! i, (a # ds) ! j) \<in> ?R"
    if "i < j" "j < length (a # ds)"
      "conflicting (coords ((a # ds) ! i)) (coords ((a # ds) ! j)) r" for i j
    using that by (intro CollectI exI[of _ i] exI[of _ j]) simp
  have inT: "(ds ! i, ds ! j) \<in> ?T"
    if "i < j" "j < length ds" "conflicting (coords (ds ! i)) (coords (ds ! j)) r" for i j
    unfolding Cons.IH using that by (intro CollectI exI[of _ i] exI[of _ j]) simp
  have "?H \<subseteq> ?R"
  proof
    fix x assume "x \<in> ?H"
    then obtain b where b: "x = (a, b)" "b \<in> set ds" "conflicting (coords a) (coords b) r"
      by auto
    from b(2) obtain j where j: "j < length ds" "ds ! j = b" by (auto simp: in_set_conv_nth)
    have "((a # ds) ! 0, (a # ds) ! Suc j) \<in> ?R"
      using b(3) j by (intro inR) simp_all
    then show "x \<in> ?R" using b(1) j(2) by simp
  qed
  moreover have "?T \<subseteq> ?R"
  proof
    fix x assume "x \<in> ?T"
    then obtain i j where ij: "x = (ds ! i, ds ! j)" "i < j" "j < length ds"
      "conflicting (coords (ds ! i)) (coords (ds ! j)) r"
      unfolding Cons.IH by auto
    have "((a # ds) ! Suc i, (a # ds) ! Suc j) \<in> ?R"
      using ij(2,3,4) by (intro inR) simp_all
    then show "x \<in> ?R" using ij(1) by simp
  qed
  moreover have "?R \<subseteq> ?H \<union> ?T"
  proof
    fix x assume "x \<in> ?R"
    then obtain i j where ij: "x = ((a # ds) ! i, (a # ds) ! j)" "i < j" "j < length (a # ds)"
      "conflicting (coords ((a # ds) ! i)) (coords ((a # ds) ! j)) r" by auto
    from ij(2) obtain j' where j': "j = Suc j'" by (cases j) auto
    show "x \<in> ?H \<union> ?T"
    proof (cases i)
      case 0
      with ij j' have "x = (a, ds ! j')" "ds ! j' \<in> set ds"
        "conflicting (coords a) (coords (ds ! j')) r" by simp_all
      then have "x \<in> ?H" by simp
      then show ?thesis by simp
    next
      case (Suc i')
      with ij j' have x: "x = (ds ! i', ds ! j')" and "i' < j'" "j' < length ds"
        "conflicting (coords (ds ! i')) (coords (ds ! j')) r" by simp_all
      from inT[OF this(2,3,4)] have "x \<in> ?T" using x by simp
      then show ?thesis by simp
    qed
  qed
  ultimately show ?case unfolding split by (intro equalityI Un_least)
qed

lemma set_close_ids:
  "set (close_ids ds r) =
     {v. \<exists>i j. i < j \<and> j < length ds \<and> conflicting (coords (ds ! i)) (coords (ds ! j)) r \<and>
           (v = drone_id (ds ! i) \<or> v = drone_id (ds ! j))}"
proof -
  have "set (close_ids ds r) =
      (\<Union>(a, b) \<in> set (close_pairs ds r). {drone_id a, drone_id b})"
    by (auto simp: close_ids_def)
  also have "\<dots> = {v. \<exists>i j. i < j \<and> j < length ds \<and>
        conflicting (coords (ds ! i)) (coords (ds ! j)) r \<and>
        (v = drone_id (ds ! i) \<or> v = drone_id (ds ! j))}"
    unfolding close_pairs_set by blast
  finally show ?thesis .
qed

lemma distinct_close_ids: "distinct (close_ids ds r)"
  by (simp add: close_ids_def Let_def)

lemma count_list_distinct:
  "distinct xs \<Longrightarrow> count_list xs v = (if v \<in> set xs then 1 else 0)"
  by (induction xs) auto

lemma set_close_ids_distinct:
  assumes "distinct ds"
  shows "set (close_ids ds r) =
     {drone_id a | a. a \<in> set ds \<and>
        (\<exists>b \<in> set ds. b \<noteq> a \<and> conflicting (coords a) (coords b) r)}" (is "?L = ?R")
proof
  have inR: "drone_id a \<in> ?R"
    if "a \<in> set ds" "b \<in> set ds" "b \<noteq> a" "conflicting (coords a) (coords b) r" for a b
  proof -
    have "\<exists>b \<in> set ds. b \<noteq> a \<and> conflicting (coords a) (coords b) r"
      using that(2,3,4) by (intro bexI[of _ b]) simp_all
    with that(1) show ?thesis by (intro CollectI exI[of _ a]) simp
  qed
  have inL: "drone_id (ds ! i) \<in> ?L" "drone_id (ds ! j) \<in> ?L"
    if "i < j" "j < length ds" "conflicting (coords (ds ! i)) (coords (ds ! j)) r" for i j
  proof -
    have e: "\<exists>i' j'. i' < j' \<and> j' < length ds \<and>
        conflicting (coords (ds ! i')) (coords (ds ! j')) r \<and>
        (v = drone_id (ds ! i') \<or> v = drone_id (ds ! j'))"
      if "v = drone_id (ds ! i) \<or> v = drone_id (ds ! j)" for v
      using that \<open>i < j\<close> \<open>j < length ds\<close> \<open>conflicting (coords (ds ! i)) (coords (ds ! j)) r\<close>
      by (intro exI[of _ i] exI[of _ j]) simp
    show "drone_id (ds ! i) \<in> ?L" unfolding set_close_ids using e by simp
    show "drone_id (ds ! j) \<in> ?L" unfolding set_close_ids using e by simp
  qed
  show "?L \<subseteq> ?R"
  proof
    fix v assume "v \<in> ?L"
    then obtain i j where ij: "i < j" "j < length ds"
      "conflicting (coords (ds ! i)) (coords (ds ! j)) r"
      "v = drone_id (ds ! i) \<or> v = drone_id (ds ! j)"
      unfolding set_close_ids by auto
    have ne: "ds ! i \<noteq> ds ! j" "ds ! j \<noteq> ds ! i"
      using ij(1,2) assms by (simp_all add: nth_eq_iff_index_eq)
    have mem: "ds ! i \<in> set ds" "ds ! j \<in> set ds" using ij(1,2) by simp_all
    have sym: "conflicting (coords (ds ! j)) (coords (ds ! i)) r"
      using ij(3) by (subst conflicting_sym)
    from ij(4) show "v \<in> ?R"
    proof
      assume "v = drone_id (ds ! i)"
      then show ?thesis using inR[OF mem(1) mem(2) ne(2) ij(3)] by simp
    next
      assume "v = drone_id (ds ! j)"
      then show ?thesis using inR[OF mem(2) mem(1) ne(1) sym] by simp
    qed
  qed
  show "?R \<subseteq> ?L"
  proof
    fix v assume "v \<in> ?R"
    then obtain a b where ab: "v = drone_id a" "a \<in> set ds" "b \<in> set ds" "b \<noteq> a"
      "conflicting (coords a) (coords b) r" by auto
    from ab(2) obtain i where i: "i < length ds" "ds ! i = a" by (auto simp: in_set_conv_nth)
    from ab(3) obtain j where j: "j < length ds" "ds ! j = b" by (auto simp: in_set_conv_nth)
    from ab(4) i j have "i \<noteq> j" by auto
    then consider "i < j" | "j < i" by linarith
    then show "v \<in> ?L"
    proof cases
      case 1
      have "conflicting (coords (ds ! i)) (coords (ds ! j)) r" using ab(5) i j by simp
      from inL(1)[OF 1 j(1) this] show ?thesis using ab(1) i by simp
    next
      case 2
      have "conflicting (coords b) (coords a) r"
        using ab(5) by (subst conflicting_sym)
      then have "conflicting (coords (ds ! j)) (coords (ds ! i)) r"
        using i j by simp
      from inL(2)[OF 2 i(1) this] show ?thesis using ab(1) i by simp
    qed
  qed
qed

text \<open>
  A scan that returns has listed the pairs in conflict, and it returns when no distance
  that it computes raises.
\<close>

lemma scan_row_pairs:
  "scan_row a bs r = Inr found \<Longrightarrow>
     map (\<lambda>(x, y, d). (x, y)) found =
       map (Pair a) (filter (\<lambda>b. conflicting (coords a) (coords b) r) bs)"
proof (induction bs arbitrary: found)
  case Nil
  then show ?case by simp
next
  case (Cons b bs)
  from Cons.prems obtain d rest where d: "dist_pts (coords a) (coords b) = Inr d"
    and rest: "scan_row a bs r = Inr rest"
    and found: "found = (if double_less d r then (a, b, d) # rest else rest)"
    by (auto split: sum.splits)
  have c: "conflicting (coords a) (coords b) r = double_less d r"
    by (simp add: conflicting_def d)
  show ?case unfolding found using Cons.IH[OF rest] c by simp
qed

lemma conflict_pairs_close:
  "conflict_pairs ds r = Inr found \<Longrightarrow> map (\<lambda>(x, y, d). (x, y)) found = close_pairs ds r"
proof (induction ds arbitrary: found)
  case Nil
  then show ?case by simp
next
  case (Cons a ds)
  from Cons.prems obtain row rest where row: "scan_row a ds r = Inr row"
    and rest: "conflict_pairs ds r = Inr rest" and found: "found = row @ rest"
    by (auto split: sum.splits)
  show ?case unfolding found using scan_row_pairs[OF row] Cons.IH[OF rest] by simp
qed

lemma scan_row_returns:
  "\<forall>b \<in> set bs. \<exists>d. dist_pts (coords a) (coords b) = Inr d \<Longrightarrow> \<exists>found. scan_row a bs r = Inr found"
proof (induction bs)
  case Nil
  then show ?case by simp
next
  case (Cons b bs)
  from Cons.prems obtain d where d: "dist_pts (coords a) (coords b) = Inr d" by auto
  from Cons.prems have "\<forall>b \<in> set bs. \<exists>d. dist_pts (coords a) (coords b) = Inr d" by simp
  from Cons.IH[OF this] obtain rest where "scan_row a bs r = Inr rest" by blast
  with d show ?case by simp
qed

lemma conflict_pairs_returns:
  "\<forall>a \<in> set ds. \<forall>b \<in> set ds. \<exists>d. dist_pts (coords a) (coords b) = Inr d \<Longrightarrow>
     \<exists>found. conflict_pairs ds r = Inr found"
proof (induction ds)
  case Nil
  then show ?case by simp
next
  case (Cons a ds)
  from Cons.prems have "\<forall>b \<in> set ds. \<exists>d. dist_pts (coords a) (coords b) = Inr d" by simp
  from scan_row_returns[OF this] obtain row where row: "scan_row a ds r = Inr row" by blast
  from Cons.prems have "\<forall>a \<in> set ds. \<forall>b \<in> set ds. \<exists>d. dist_pts (coords a) (coords b) = Inr d"
    by simp
  from Cons.IH[OF this] obtain rest where "conflict_pairs ds r = Inr rest" by blast
  with row show ?case by simp
qed

lemma close_pairs_short:
  assumes "length ds < 2"
  shows "close_pairs ds r = []"
proof (cases ds)
  case Nil
  then show ?thesis by simp
next
  case (Cons a rest)
  with assms have "rest = []" by simp
  with Cons show ?thesis by simp
qed

lemma get_conflicts_ids:
  assumes "get_conflicts ds r dbg = Inr (printed, ids)"
  shows "ids = close_ids ds r"
proof (cases "length ds < 2")
  case True
  with assms show ?thesis by (simp add: get_conflicts_def close_ids_def close_pairs_short)
next
  case False
  with assms obtain found where f: "conflict_pairs ds r = Inr found"
    and ids: "ids = remdups (concat (map (\<lambda>(a, b, d). [drone_id a, drone_id b]) found))"
    by (auto simp: get_conflicts_def Let_def split: sum.splits)
  have "map (\<lambda>(a, b, d). [drone_id a, drone_id b]) found =
      map (\<lambda>(a, b). [drone_id a, drone_id b]) (map (\<lambda>(x, y, d). (x, y)) found)"
    by (simp add: case_prod_beta)
  then show ?thesis unfolding ids close_ids_def conflict_pairs_close[OF f] by simp
qed

lemma get_conflicts_returns:
  assumes "\<forall>a \<in> set ds. \<forall>b \<in> set ds. \<exists>d. dist_pts (coords a) (coords b) = Inr d"
  shows "\<exists>printed. get_conflicts ds r dbg = Inr (printed, close_ids ds r)"
proof -
  from conflict_pairs_returns[OF assms] obtain found where "conflict_pairs ds r = Inr found"
    by blast
  then have "\<exists>printed ids. get_conflicts ds r dbg = Inr (printed, ids)"
    by (cases "length ds < 2") (simp_all add: get_conflicts_def Let_def)
  then obtain printed ids where g: "get_conflicts ds r dbg = Inr (printed, ids)" by blast
  from get_conflicts_ids[OF g] g show ?thesis by simp
qed

section \<open>Points that share a sector\<close>

lemma index_pairs_meet:
  "{int a - 1, int a} \<inter> {int b - 1, int b} \<noteq> {} \<longleftrightarrow> a \<le> Suc b \<and> b \<le> Suc a"
proof -
  have "{int a - 1, int a} \<inter> {int b - 1, int b} \<noteq> {} \<longleftrightarrow>
      (int a - 1 = int b - 1 \<or> int a - 1 = int b \<or> int a = int b - 1 \<or> int a = int b)"
    by auto
  also have "\<dots> \<longleftrightarrow> a \<le> Suc b \<and> b \<le> Suc a" by linarith
  finally show ?thesis .
qed

lemma sector_locs_share:
  assumes "bs \<noteq> []"
  shows "set (sector_locs bs a) \<inter> set (sector_locs bs b) \<noteq> {} \<longleftrightarrow>
           near_fields bs (coords a) (coords b)"
  unfolding set_sector_locs[OF assms] Times_Int_Times Times_empty de_Morgan_disj
    index_pairs_meet near_fields_def
  by blast

lemma near_fields_close:
  assumes "\<forall>i. Suc (Suc i) < length bs \<longrightarrow> bs ! Suc i - bs ! i = 5000"
    and "conflicting p q r" "r \<le> 5000"
  shows "near_fields bs p q"
proof -
  from conflicting_within[OF assms(2,3)]
  have x: "\<bar>fst p - fst q\<bar> < real_of_int 5000" and y: "\<bar>snd p - snd q\<bar> < real_of_int 5000"
    by simp_all
  show ?thesis
    unfolding near_fields_def
    using field_near[OF assms(1) x] field_near[OF assms(1) y] by simp
qed

lemma first_greater_eqI:
  "j < length bs \<Longrightarrow> p < real_of_int (bs ! j) \<Longrightarrow> \<forall>i<j. real_of_int (bs ! i) \<le> p \<Longrightarrow>
     first_greater bs p ix = Some (ix + j)"
proof (induction bs arbitrary: ix j)
  case Nil
  then show ?case by simp
next
  case (Cons b bs)
  show ?case
  proof (cases j)
    case 0
    with Cons.prems show ?thesis by simp
  next
    case (Suc j')
    from Cons.prems(3) Suc have nb: "\<not> real_of_int b > p" by fastforce
    have "\<forall>i<j'. real_of_int (bs ! i) \<le> p"
    proof (intro allI impI)
      fix i assume "i < j'"
      then have "Suc i < j" using Suc by simp
      with Cons.prems(3) have "real_of_int ((b # bs) ! Suc i) \<le> p" by blast
      then show "real_of_int (bs ! i) \<le> p" by simp
    qed
    with Cons.IH[of j' "Suc ix"] Cons.prems(1,2) Suc
    have "first_greater bs p (Suc ix) = Some (Suc ix + j')" by simp
    with nb Suc show ?thesis by simp
  qed
qed

lemma field_of_eqI:
  "j < length bs \<Longrightarrow> p < real_of_int (bs ! j) \<Longrightarrow> \<forall>i<j. real_of_int (bs ! i) \<le> p \<Longrightarrow>
     field_of bs p = j"
  using first_greater_eqI[of j bs p 0] by (simp add: field_of_def)

section \<open>The drones of a call\<close>

lemma mk_drones_eq:
  "map (\<lambda>(ident, drone). \<lparr>coords = drone, drone_id = ident\<rparr>) (enumerate 0 ps) =
     map (mk_drone ps) [0..<length ps]"
  by (rule nth_equalityI) (simp_all add: nth_enumerate_eq mk_drone_def)

lemma take_min_length: "take (min (length xs) m) xs = take m xs"
  by (cases "m \<le> length xs") (simp_all add: min_def)

lemma py_prefix_take: "py_prefix xs limit = take (prefix_len (length xs) limit) xs"
  unfolding py_prefix_def prefix_len_def take_min_length by simp

lemma py_prefix_drones:
  "py_prefix (map (mk_drone ps) [0..<length ps]) limit =
     map (mk_drone ps) [0..<prefix_len (length ps) limit]"
proof -
  have "prefix_len (length ps) limit \<le> length ps" by (simp add: prefix_len_def)
  then show ?thesis
    by (simp add: py_prefix_take take_map take_upt)
qed

lemma distinct_drones: "distinct (map (mk_drone ps) [0..<m])"
  by (simp add: distinct_map inj_on_def mk_drone_def)

lemma length_np_unique: "length (np_unique xs) = card (set xs)"
  by (simp add: np_unique_def length_remdups_card_conv)

lemma mk_drone_sel: "coords (mk_drone ps i) = ps ! i" "drone_id (mk_drone ps i) = i"
  by (simp_all add: mk_drone_def)

lemma mk_drone_inj: "mk_drone ps i = mk_drone ps j \<longleftrightarrow> i = j"
  by (auto simp: mk_drone_def)

section \<open>The scan of all sectors\<close>

text \<open>
  The identifiers that the scans of all sectors return are those of the processed points
  that have another processed point closer than the radius in one of their sectors.
\<close>

lemma scan_sectors_returns:
  assumes "\<forall>(index, sector_drones) \<in> set secs.
             \<exists>printed. get_conflicts sector_drones r False = Inr (printed, close_ids sector_drones r)"
  shows "scan_sectors secs r =
           Inr (concat (map (\<lambda>(index, sector_drones). close_ids sector_drones r) secs))"
  using assms
proof (induction secs)
  case Nil
  then show ?case by simp
next
  case (Cons kb secs)
  obtain k b where e: "kb = (k, b)" by (cases kb)
  from Cons.prems e obtain printed where
    g: "get_conflicts b r False = Inr (printed, close_ids b r)" by auto
  from Cons.prems have "\<forall>(index, sector_drones) \<in> set secs.
      \<exists>printed. get_conflicts sector_drones r False = Inr (printed, close_ids sector_drones r)"
    by simp
  from Cons.IH[OF this] show ?case unfolding e by (simp add: g)
qed

lemma scan_of_sectors:
  assumes ne: "bs \<noteq> []"
    and keys: "distinct keys"
    and inkeys: "\<forall>i<m. set (sector_locs bs (mk_drone ps i)) \<subseteq> set keys"
    and noraise: "\<forall>i<m. \<forall>j<m. \<exists>d. dist_pts (ps ! i) (ps ! j) = Inr d"
  shows "\<exists>secs' ids. assign_drones bs (map (\<lambda>key. (key, [])) keys) (map (mk_drone ps) [0..<m]) = Inr secs' \<and>
           scan_sectors secs' r = Inr ids \<and> set ids = sector_conflicted bs ps r m"
proof -
  let ?ds = "map (mk_drone ps) [0..<m]"
  let ?secs = "map (\<lambda>key. (key, [])) keys :: sectors"
  let ?F = "\<lambda>(index :: int \<times> int, sector_drones). close_ids sector_drones r"
  define bucket where "bucket key = filter (\<lambda>d. key \<in> set (sector_locs bs d)) ?ds" for key
  have fk: "fst ` set ?secs = set keys" by (simp add: image_image)
  have pre: "\<forall>d \<in> set ?ds. set (sector_locs bs d) \<subseteq> fst ` set ?secs \<and> distinct (sector_locs bs d)"
    unfolding fk using inkeys distinct_sector_locs[OF ne] by auto
  from assign_drones_ok[OF pre] obtain secs' where s:
    "assign_drones bs ?secs ?ds = Inr secs'" "map fst secs' = map fst ?secs"
    "\<forall>key. map_of secs' key =
        map_option (\<lambda>old. old @ filter (\<lambda>d. key \<in> set (sector_locs bs d)) ?ds) (map_of ?secs key)"
    by blast
  have m0: "map_of ?secs key = (if key \<in> set keys then Some [] else None)" for key
    by (simp add: map_of_map_restrict restrict_map_def)
  have m1: "map_of secs' key = (if key \<in> set keys then Some (bucket key) else None)" for key
  proof -
    have "map_of secs' key =
        map_option (\<lambda>old. old @ filter (\<lambda>d. key \<in> set (sector_locs bs d)) ?ds) (map_of ?secs key)"
      using s(3) by blast
    then show ?thesis unfolding m0 bucket_def by simp
  qed
  have dk: "distinct (map fst secs')" using s(2) keys by (simp add: comp_def)
  have mem: "(k, b) \<in> set secs' \<longleftrightarrow> k \<in> set keys \<and> b = bucket k" for k b
  proof -
    have "(k, b) \<in> set secs' \<longleftrightarrow> map_of secs' k = Some b"
      using dk by simp
    then show ?thesis unfolding m1 by auto
  qed
  have inb: "a \<in> set (bucket k) \<longleftrightarrow> (\<exists>i<m. a = mk_drone ps i \<and> k \<in> set (sector_locs bs a))" for a k
    unfolding bucket_def by auto
  have db: "distinct (bucket k)" for k
    unfolding bucket_def by (intro distinct_filter distinct_drones)
  have bk: "set (close_ids (bucket k) r) =
      {drone_id a | a. a \<in> set (bucket k) \<and>
         (\<exists>b \<in> set (bucket k). b \<noteq> a \<and> conflicting (coords a) (coords b) r)}" for k
    using db by (rule set_close_ids_distinct)
  have conc: "set (concat (map ?F secs')) =
      (\<Union>k \<in> set keys. set (close_ids (bucket k) r))" (is "?A = ?B")
  proof
    show "?A \<subseteq> ?B"
    proof
      fix v assume "v \<in> ?A"
      then obtain kb where kb: "kb \<in> set secs'" "v \<in> set (?F kb)" by auto
      obtain k b where e: "kb = (k, b)" by (cases kb)
      with kb mem[of k b] have "k \<in> set keys" "v \<in> set (close_ids (bucket k) r)"
        by simp_all
      then show "v \<in> ?B" by blast
    qed
    show "?B \<subseteq> ?A"
    proof
      fix v assume "v \<in> ?B"
      then obtain k where k: "k \<in> set keys" "v \<in> set (close_ids (bucket k) r)"
        by blast
      from k(1) have "(k, bucket k) \<in> set secs'" using mem[of k "bucket k"] by simp
      moreover have "v \<in> set (?F (k, bucket k))" using k(2) by simp
      ultimately show "v \<in> ?A" unfolding set_concat set_map by blast
    qed
  qed
  have "?B = sector_conflicted bs ps r m" (is "_ = ?C")
  proof
    show "?B \<subseteq> ?C"
    proof
      fix v assume "v \<in> ?B"
      then obtain k where k: "k \<in> set keys" "v \<in> set (close_ids (bucket k) r)"
        by blast
      from k(2) obtain a b where ab: "v = drone_id a" "a \<in> set (bucket k)" "b \<in> set (bucket k)"
        "b \<noteq> a" "conflicting (coords a) (coords b) r" unfolding bk by blast
      from ab(2) obtain i where i: "i < m" "a = mk_drone ps i" "k \<in> set (sector_locs bs a)"
        unfolding inb by blast
      from ab(3) obtain j where j: "j < m" "b = mk_drone ps j" "k \<in> set (sector_locs bs b)"
        unfolding inb by blast
      have "j \<noteq> i" using ab(4) i(2) j(2) by auto
      moreover have "conflicting (ps ! i) (ps ! j) r"
        using ab(5) i(2) j(2) by (simp add: mk_drone_sel)
      moreover have "near_fields bs (ps ! i) (ps ! j)"
      proof -
        have "set (sector_locs bs a) \<inter> set (sector_locs bs b) \<noteq> {}" using i(3) j(3) by blast
        then show ?thesis
          unfolding sector_locs_share[OF ne] i(2) j(2) by (simp add: mk_drone_sel)
      qed
      moreover have "v = i" using ab(1) i(2) by (simp add: mk_drone_sel)
      ultimately show "v \<in> ?C" unfolding sector_conflicted_def using i(1) j(1) by blast
    qed
    show "?C \<subseteq> ?B"
    proof
      fix i assume "i \<in> ?C"
      then obtain j where ij: "i < m" "j < m" "j \<noteq> i" "conflicting (ps ! i) (ps ! j) r"
        "near_fields bs (ps ! i) (ps ! j)" unfolding sector_conflicted_def by blast
      let ?a = "mk_drone ps i" and ?b = "mk_drone ps j"
      have "set (sector_locs bs ?a) \<inter> set (sector_locs bs ?b) \<noteq> {}"
        unfolding sector_locs_share[OF ne] using ij(5) by (simp add: mk_drone_sel)
      then obtain k where k: "k \<in> set (sector_locs bs ?a)" "k \<in> set (sector_locs bs ?b)" by blast
      have kk: "k \<in> set keys" using k(1) inkeys ij(1) by blast
      have a: "?a \<in> set (bucket k)" unfolding inb using ij(1) k(1) by blast
      have b: "?b \<in> set (bucket k)" unfolding inb using ij(2) k(2) by blast
      have n: "?b \<noteq> ?a" using ij(3) by (simp add: mk_drone_inj)
      have d: "conflicting (coords ?a) (coords ?b) r" using ij(4) by (simp add: mk_drone_sel)
      have "\<exists>b \<in> set (bucket k). b \<noteq> ?a \<and> conflicting (coords ?a) (coords b) r"
        using b n d by (intro bexI[of _ ?b]) simp_all
      with a have "drone_id ?a \<in> set (close_ids (bucket k) r)"
        unfolding bk by (intro CollectI exI[of _ ?a]) simp
      then have "i \<in> set (close_ids (bucket k) r)" by (simp add: mk_drone_sel)
      with kk show "i \<in> ?B" by blast
    qed
  qed
  with conc have tot: "set (concat (map ?F secs')) = sector_conflicted bs ps r m" by simp
  have "\<forall>(index, sector_drones) \<in> set secs'.
      \<exists>printed. get_conflicts sector_drones r False = Inr (printed, close_ids sector_drones r)"
  proof (intro ballI, clarify)
    fix k b assume "(k, b) \<in> set secs'"
    with mem[of k b] have b: "b = bucket k" by simp
    have "\<forall>x \<in> set b. \<forall>y \<in> set b. \<exists>d. dist_pts (coords x) (coords y) = Inr d"
    proof (intro ballI)
      fix x y assume "x \<in> set b" "y \<in> set b"
      with b inb obtain i j where "i < m" "x = mk_drone ps i" "j < m" "y = mk_drone ps j"
        by blast
      with noraise show "\<exists>d. dist_pts (coords x) (coords y) = Inr d"
        by (simp add: mk_drone_sel)
    qed
    then show "\<exists>printed. get_conflicts b r False = Inr (printed, close_ids b r)"
      by (rule get_conflicts_returns)
  qed
  from scan_sectors_returns[OF this] have "scan_sectors secs' r = Inr (concat (map ?F secs'))" .
  with tot s(1) show ?thesis by blast
qed

lemma default_grid:
  "split_into_sectors AIRSPACE_SIZE CONFLICT_RADIUS 10 =
     Inr (grid_bounds 128000 5000,
          map (\<lambda>key. (key, [])) (grid_keys (int (length (grid_bounds 128000 5000)))))"
  using split_into_sectors_pos[of CONFLICT_RADIUS 10 AIRSPACE_SIZE]
  by (simp add: AIRSPACE_SIZE_def CONFLICT_RADIUS_def)

lemma count_conflicts_sectors:
  assumes "- 1 \<le> limit" "limit \<le> int (length ps)"
    and "\<forall>p \<in> set ps. 0 \<le> fst p \<and> 0 \<le> snd p"
    and noraise: "\<forall>p \<in> set ps. \<forall>q \<in> set ps. \<exists>d. dist_pts p q = Inr d"
  shows "returned (count_conflicts ps r dbg limit) =
           Inr (card (sector_conflicted (grid_bounds 128000 5000) ps r
                        (prefix_len (length ps) limit)))"
proof -
  let ?bs = "grid_bounds 128000 5000"
  let ?keys = "grid_keys (int (length ?bs))"
  let ?m = "prefix_len (length ps) limit"
  have len: "2 \<le> length ?bs" by (rule grid_bounds_length_ge2) simp_all
  then have ne: "?bs \<noteq> []" by auto
  have z: "?bs ! 0 = 0" by (rule grid_bounds_zero) simp_all
  have ml: "?m \<le> length ps" by (simp add: prefix_len_def)
  have inkeys: "\<forall>i<?m. set (sector_locs ?bs (mk_drone ps i)) \<subseteq> set ?keys"
  proof (intro allI impI)
    fix i assume "i < ?m"
    with ml have "ps ! i \<in> set ps" by simp
    with assms(3) have "0 \<le> fst (ps ! i)" "0 \<le> snd (ps ! i)" by simp_all
    then show "set (sector_locs ?bs (mk_drone ps i)) \<subseteq> set ?keys"
      using len z by (intro sector_locs_in_grid) (simp_all add: mk_drone_sel)
  qed
  have nr: "\<forall>i<?m. \<forall>j<?m. \<exists>d. dist_pts (ps ! i) (ps ! j) = Inr d"
  proof (intro allI impI)
    fix i j assume "i < ?m" "j < ?m"
    with ml have "ps ! i \<in> set ps" "ps ! j \<in> set ps" by simp_all
    with noraise show "\<exists>d. dist_pts (ps ! i) (ps ! j) = Inr d" by blast
  qed
  from scan_of_sectors[OF ne distinct_grid_keys inkeys nr, of r] obtain secs' ids where s:
    "assign_drones ?bs (map (\<lambda>key. (key, [])) ?keys) (map (mk_drone ps) [0..<?m]) = Inr secs'"
    "scan_sectors secs' r = Inr ids"
    "set ids = sector_conflicted ?bs ps r ?m"
    by blast
  have drones: "py_prefix (map (\<lambda>(ident, drone). \<lparr>coords = drone, drone_id = ident\<rparr>)
        (enumerate 0 ps)) limit = map (mk_drone ps) [0..<?m]"
    by (simp add: mk_drones_eq py_prefix_drones)
  have e: "length (np_unique ids) = card (sector_conflicted ?bs ps r ?m)"
    unfolding length_np_unique s(3) by (rule refl)
  have "\<forall>x \<in> set (map (mk_drone ps) [0..<?m]). \<forall>y \<in> set (map (mk_drone ps) [0..<?m]).
      \<exists>d. dist_pts (coords x) (coords y) = Inr d"
    using nr by (auto simp: mk_drone_sel)
  from get_conflicts_returns[OF this, of r False] obtain printed where
    b: "get_conflicts (map (mk_drone ps) [0..<?m]) r False =
          Inr (printed, close_ids (map (mk_drone ps) [0..<?m]) r)"
    by blast
  show ?thesis
    using assms(1,2)
    by (simp add: count_conflicts_def returned_def Let_def default_grid drones s(1) s(2) e b)
qed

section \<open>The reference count and the sector search\<close>

lemma brute_force_count_card:
  "brute_force_count qs r =
     card {i. i < length qs \<and> (\<exists>j<length qs. j \<noteq> i \<and> conflicting (qs ! i) (qs ! j) r)}"
proof -
  have "brute_force_count qs r =
      card ({i. \<exists>j\<in>set [0..<length qs]. j \<noteq> i \<and> conflicting (qs ! i) (qs ! j) r} \<inter>
            set [0..<length qs])"
    unfolding brute_force_count_def by (rule distinct_length_filter) simp
  also have "{i. \<exists>j\<in>set [0..<length qs]. j \<noteq> i \<and> conflicting (qs ! i) (qs ! j) r} \<inter>
            set [0..<length qs] =
      {i. i < length qs \<and> (\<exists>j<length qs. j \<noteq> i \<and> conflicting (qs ! i) (qs ! j) r)}"
    by auto
  finally show ?thesis .
qed

lemma default_grid_step:
  "\<forall>i. Suc (Suc i) < length (grid_bounds 128000 5000) \<longrightarrow>
       grid_bounds 128000 5000 ! Suc i - grid_bounds 128000 5000 ! i = 5000"
  using grid_bounds_step[of 128000 5000] by simp

lemma sector_conflicted_small_radius:
  assumes "r \<le> 5000"
  shows "sector_conflicted (grid_bounds 128000 5000) ps r m =
           {i. i < m \<and> (\<exists>j<m. j \<noteq> i \<and> conflicting (ps ! i) (ps ! j) r)}"
proof -
  have "near_fields (grid_bounds 128000 5000) p q" if "conflicting p q r" for p q
    by (rule near_fields_close[OF default_grid_step that]) (use assms in simp)
  then show ?thesis unfolding sector_conflicted_def by blast
qed

lemma sector_conflicted_lt2: "m < 2 \<Longrightarrow> sector_conflicted bs ps r m = {}"
  unfolding sector_conflicted_def by auto

lemma count_conflicts_brute:
  assumes "- 1 \<le> limit" "limit \<le> int (length ps)"
    and "\<forall>p \<in> set ps. 0 \<le> fst p \<and> 0 \<le> snd p"
    and "\<forall>p \<in> set ps. \<forall>q \<in> set ps. \<exists>d. dist_pts p q = Inr d"
    and "r \<le> 5000"
  shows "returned (count_conflicts ps r dbg limit) =
           Inr (brute_force_count (take (prefix_len (length ps) limit) ps) r)"
proof -
  let ?m = "prefix_len (length ps) limit"
  have ml: "?m \<le> length ps" by (simp add: prefix_len_def)
  then have l: "length (take ?m ps) = ?m" by simp
  have "{i. i < ?m \<and> (\<exists>j<?m. j \<noteq> i \<and> conflicting (ps ! i) (ps ! j) r)} =
      {i. i < ?m \<and> (\<exists>j<?m. j \<noteq> i \<and> conflicting (take ?m ps ! i) (take ?m ps ! j) r)}"
    by auto
  then show ?thesis
    unfolding count_conflicts_sectors[OF assms(1,2,3,4)] sector_conflicted_small_radius[OF assms(5)]
      brute_force_count_card l
    by simp
qed

lemma in_range_returns:
  assumes "\<forall>p \<in> set ps. 0 \<le> fst p \<and> fst p \<le> 128000 \<and> 0 \<le> snd p \<and> snd p \<le> 128000"
  shows "\<forall>p \<in> set ps. \<forall>q \<in> set ps. \<exists>d. dist_pts p q = Inr d"
proof (intro ballI)
  fix p q assume "p \<in> set ps" "q \<in> set ps"
  with assms have "0 \<le> fst p \<and> fst p \<le> 128000 \<and> 0 \<le> snd p \<and> snd p \<le> 128000"
    "0 \<le> fst q \<and> fst q \<le> 128000 \<and> 0 \<le> snd q \<and> snd q \<le> 128000" by blast+
  then have "\<bar>fst p - fst q\<bar> \<le> 128000" "\<bar>snd p - snd q\<bar> \<le> 128000" by linarith+
  then have "\<bar>fst p - fst q\<bar> \<le> 2 ^ 25" "\<bar>snd p - snd q\<bar> \<le> 2 ^ 25" by simp_all
  from dist_pts_bounded[OF this] show "\<exists>d. dist_pts p q = Inr d" by blast
qed

lemma brute_force_count_pair:
  "brute_force_count [p, q] r = (if conflicting p q r then 2 else 0)"
  by (simp add: brute_force_count_def upt_rec conflicting_sym[of q p])

section \<open>Particular inputs\<close>

lemma default_grid_length: "length (grid_bounds 128000 5000) = 27"
  by (simp add: length_grid_bounds)

lemma default_grid_nth: "i < 26 \<Longrightarrow> grid_bounds 128000 5000 ! i = int i * 5000"
  by (rule grid_bounds_nth) simp

lemma default_field_0: "field_of (grid_bounds 128000 5000) 0 = 1"
proof (rule field_of_eqI)
  show "1 < length (grid_bounds 128000 5000)" by (simp add: default_grid_length)
  show "0 < real_of_int (grid_bounds 128000 5000 ! 1)" by (simp add: default_grid_nth)
  show "\<forall>i<1. real_of_int (grid_bounds 128000 5000 ! i) \<le> 0" by (simp add: default_grid_nth)
qed

lemma default_field_10000: "field_of (grid_bounds 128000 5000) 10000 = 3"
proof (rule field_of_eqI)
  show "3 < length (grid_bounds 128000 5000)" by (simp add: default_grid_length)
  show "10000 < real_of_int (grid_bounds 128000 5000 ! 3)" by (simp add: default_grid_nth)
  show "\<forall>i<3. real_of_int (grid_bounds 128000 5000 ! i) \<le> 10000"
  proof (intro allI impI)
    fix i :: nat assume "i < 3"
    then have "int i \<le> 2" "i < 26" by simp_all
    then show "real_of_int (grid_bounds 128000 5000 ! i) \<le> 10000"
      by (simp add: default_grid_nth)
  qed
qed

lemma sector_conflicted_far_apart:
  assumes "m \<le> 2"
  shows "sector_conflicted (grid_bounds 128000 5000) [(0, 0), (10000, 0)] r m = {}"
proof -
  let ?ps = "[(0, 0), (10000, 0)] :: (real \<times> real) list"
  have nf: "\<not> near_fields (grid_bounds 128000 5000) (0, 0) (10000, 0)"
    "\<not> near_fields (grid_bounds 128000 5000) (10000, 0) (0, 0)"
    by (simp_all add: near_fields_def default_field_0 default_field_10000)
  have False
    if "i < m" "j < m" "j \<noteq> i" "near_fields (grid_bounds 128000 5000) (?ps ! i) (?ps ! j)"
    for i j
  proof -
    from that(1,2,3) assms consider "i = 0 \<and> j = 1" | "i = 1 \<and> j = 0" by linarith
    then show False using that(4) nf by cases simp_all
  qed
  then show ?thesis unfolding sector_conflicted_def by blast
qed

lemma sector_conflicted_nonpositive:
  assumes "r \<le> 0"
  shows "sector_conflicted bs ps r m = {}"
  unfolding sector_conflicted_def using conflicting_nonpositive[OF assms] by simp


lemma double_of_zero: "double_of 0 = Finite 0"
  by (simp add: double_of_def to_double_zero)

lemma dist_pts_same: "dist_pts p p = Inr (Finite 0)"
  by (simp add: dist_pts_def double_of_zero to_double_zero)

lemma conflicting_same: "0 < r \<Longrightarrow> conflicting p p r"
  by (simp add: conflicting_def dist_pts_same)

lemma conflicting_int:
  assumes "\<bar>a - c\<bar> \<le> 2 ^ 25" "\<bar>b - d\<bar> \<le> 2 ^ 25"
  shows "conflicting (of_int a, of_int b) (of_int c, of_int d) r \<longleftrightarrow>
           to_double (euclidean (of_int a, of_int b) (of_int c, of_int d)) < r"
  by (simp add: conflicting_def dist_pts_int[OF assms])

lemma euclidean_int_le:
  assumes "(a - c) * (a - c) + (b - d) * (b - d) \<le> k * k" "0 \<le> k"
  shows "euclidean (of_int a, of_int b) (of_int c, of_int d) \<le> of_int k"
proof -
  have "(real_of_int a - of_int c)\<^sup>2 + (real_of_int b - of_int d)\<^sup>2 =
      of_int ((a - c) * (a - c) + (b - d) * (b - d))"
    by (simp add: power2_eq_square)
  also have "\<dots> \<le> of_int (k * k)" using assms(1) by (simp only: of_int_le_iff)
  also have "\<dots> = (real_of_int k)\<^sup>2" by (simp add: power2_eq_square)
  finally show ?thesis
    unfolding euclidean_def using assms(2) by (simp add: real_le_lsqrt)
qed

lemma euclidean_int_ge:
  assumes "k * k \<le> (a - c) * (a - c) + (b - d) * (b - d)" "0 \<le> k"
  shows "of_int k \<le> euclidean (of_int a, of_int b) (of_int c, of_int d)"
proof -
  have "(real_of_int k)\<^sup>2 = of_int (k * k)" by (simp add: power2_eq_square)
  also have "\<dots> \<le> of_int ((a - c) * (a - c) + (b - d) * (b - d))"
    using assms(1) by (simp only: of_int_le_iff)
  also have "\<dots> = (real_of_int a - of_int c)\<^sup>2 + (real_of_int b - of_int d)\<^sup>2"
    by (simp add: power2_eq_square)
  finally show ?thesis
    unfolding euclidean_def using assms(2) by (simp add: real_le_rsqrt)
qed

lemma conflicting_int_close:
  assumes "\<bar>a - c\<bar> \<le> 2 ^ 25" "\<bar>b - d\<bar> \<le> 2 ^ 25"
    and "(a - c) * (a - c) + (b - d) * (b - d) \<le> k * k" "0 \<le> k" "k < 2 ^ 53"
    and "of_int k < r"
  shows "conflicting (of_int a, of_int b) (of_int c, of_int d) r"
proof -
  have "to_double (euclidean (of_int a, of_int b) (of_int c, of_int d)) \<le> to_double (of_int k)"
    by (rule to_double_mono) (rule euclidean_int_le[OF assms(3,4)])
  also have "to_double (of_int k) = of_int k"
    by (rule to_double_int) (use assms(4,5) in simp)
  finally show ?thesis unfolding conflicting_int[OF assms(1,2)] using assms(6) by simp
qed

lemma conflicting_int_far:
  assumes "\<bar>a - c\<bar> \<le> 2 ^ 25" "\<bar>b - d\<bar> \<le> 2 ^ 25"
    and "k * k \<le> (a - c) * (a - c) + (b - d) * (b - d)" "0 \<le> k" "k < 2 ^ 53"
    and "r \<le> of_int k"
  shows "\<not> conflicting (of_int a, of_int b) (of_int c, of_int d) r"
proof -
  have "to_double (of_int k) \<le> to_double (euclidean (of_int a, of_int b) (of_int c, of_int d))"
    by (rule to_double_mono) (rule euclidean_int_ge[OF assms(3,4)])
  moreover have "to_double (of_int k) = of_int k"
    by (rule to_double_int) (use assms(4,5) in simp)
  ultimately show ?thesis unfolding conflicting_int[OF assms(1,2)] using assms(6) by simp
qed

lemma near_fields_refl: "near_fields bs p p"
  by (simp add: near_fields_def)

lemma sector_conflicted_replicate:
  assumes "0 < r" "m \<le> n"
  shows "sector_conflicted bs (replicate n p) r m = (if 2 \<le> m then {..<m} else {})"
proof (cases "2 \<le> m")
  case False
  then show ?thesis by (simp add: sector_conflicted_lt2)
next
  case True
  have "i \<in> sector_conflicted bs (replicate n p) r m" if "i < m" for i
  proof -
    obtain j where j: "j < m" "j \<noteq> i"
    proof (cases "i = 0")
      case True
      with \<open>2 \<le> m\<close> have "1 < m" "1 \<noteq> i" by simp_all
      then show ?thesis by (rule that)
    next
      case False
      with \<open>2 \<le> m\<close> have "0 < m" "0 \<noteq> i" by simp_all
      then show ?thesis by (rule that)
    qed
    have "conflicting (replicate n p ! i) (replicate n p ! j) r"
      using that j(1) assms by (simp add: conflicting_same)
    moreover have "near_fields bs (replicate n p ! i) (replicate n p ! j)"
      using that j(1) assms(2) by (simp add: near_fields_refl)
    ultimately show ?thesis unfolding sector_conflicted_def using that j by blast
  qed
  moreover have "i < m" if "i \<in> sector_conflicted bs (replicate n p) r m" for i
    using that unfolding sector_conflicted_def by simp
  ultimately have "sector_conflicted bs (replicate n p) r m = {..<m}" by blast
  with True show ?thesis by simp
qed

lemma count_conflicts_replicate:
  assumes "0 \<le> fst p" "0 \<le> snd p" "0 < r" "- 1 \<le> limit" "limit \<le> int n"
  shows "returned (count_conflicts (replicate n p) r dbg limit) =
           Inr (if 2 \<le> prefix_len n limit then prefix_len n limit else 0)"
proof -
  have v: "- 1 \<le> limit" "limit \<le> int (length (replicate n p))"
    "\<forall>q \<in> set (replicate n p). 0 \<le> fst q \<and> 0 \<le> snd q"
    "\<forall>q \<in> set (replicate n p). \<forall>q' \<in> set (replicate n p). \<exists>d. dist_pts q q' = Inr d"
    using assms by (simp_all add: dist_pts_same)
  have m: "prefix_len n limit \<le> n" by (simp add: prefix_len_def)
  show ?thesis
    unfolding count_conflicts_sectors[OF v] length_replicate
      sector_conflicted_replicate[OF assms(3) m]
    by simp
qed

section \<open>Sector search against the brute-force count\<close>

text \<open>
  Claim C1. \<^verbatim>\<open>count_conflicts\<close> does not return the brute-force count for every sequence
  of points in the airspace and every positive radius. With no limit given the slice
  \<^verbatim>\<open>drones[0:-1]\<close> leaves the last point out: for the points \<open>(0,0)\<close> and \<open>(2,2)\<close> and
  radius \<open>4\<close> the call returns \<open>0\<close>, while each of the two points has the other one
  closer than \<open>4\<close> and the brute-force count is \<open>2\<close>. And the grid is built by
  \<^verbatim>\<open>split_into_sectors()\<close> from the module constants, with cells \<open>5000\<close> wide whatever
  radius is passed: the points \<open>(0,0)\<close> and \<open>(10000,0)\<close>, less than the radius \<open>20000\<close>
  apart, share no sector, and the call with the explicit limit \<open>2\<close> returns \<open>0\<close> where
  the brute-force count is \<open>2\<close>.
\<close>

theorem count_conflicts_differs_from_brute_force:
  "returned (count_conflicts [(0, 0), (2, 2)] 4 False (- 1)) = Inr 0 \<and>
   euclidean (0, 0) (2, 2) < 4 \<and>
   brute_force_count [(0, 0), (2, 2)] 4 = 2 \<and>
   returned (count_conflicts [(0, 0), (10000, 0)] 20000 False 2) = Inr 0 \<and>
   euclidean (0, 0) (10000, 0) < 20000 \<and>
   brute_force_count [(0, 0), (10000, 0)] 20000 = 2"
proof -
  let ?ps = "[(0, 0), (2, 2)] :: (real \<times> real) list"
  let ?qs = "[(0, 0), (10000, 0)] :: (real \<times> real) list"
  have v: "\<forall>p \<in> set ?ps. 0 \<le> fst p \<and> 0 \<le> snd p" by simp
  have n: "\<forall>p \<in> set ?ps. \<forall>q \<in> set ?ps. \<exists>d. dist_pts p q = Inr d"
    by (rule in_range_returns) simp
  have w: "\<forall>p \<in> set ?qs. 0 \<le> fst p \<and> 0 \<le> snd p" by simp
  have m: "\<forall>p \<in> set ?qs. \<forall>q \<in> set ?qs. \<exists>d. dist_pts p q = Inr d"
    by (rule in_range_returns) simp
  have a: "returned (count_conflicts ?ps 4 False (- 1)) = Inr 0"
    by (subst count_conflicts_sectors[OF _ _ v n])
       (simp_all add: sector_conflicted_lt2 prefix_len_def)
  have b: "euclidean (0, 0) (2, 2) < 4"
    by (simp add: euclidean_def real_less_lsqrt)
  have c: "brute_force_count ?ps 4 = 2"
    using conflicting_int_close[where a = 0 and b = 0 and c = 2 and d = 2 and k = 3 and r = 4]
    by (simp add: brute_force_count_pair)
  have d: "returned (count_conflicts ?qs 20000 False 2) = Inr 0"
    by (subst count_conflicts_sectors[OF _ _ w m])
       (simp_all add: sector_conflicted_far_apart prefix_len_def)
  have e: "euclidean (0, 0) (10000, 0) < 20000"
    by (simp add: euclidean_def)
  have f: "brute_force_count ?qs 20000 = 2"
    using conflicting_int_close[where a = 0 and b = 0 and c = 10000 and d = 0 and k = 10000
        and r = 20000]
    by (simp add: brute_force_count_pair)
  from a b c d e f show ?thesis by simp
qed

section \<open>The default limit leaves the last point out\<close>

text \<open>
  Claim C2. The points \<open>(0,0)\<close> and \<open>(2,2)\<close> are less than \<open>4\<close> apart, for the test of the
  scanner as in real numbers, and with the explicit limit \<open>2\<close> both are counted; with no
  limit given the call uses \<open>limit = -1\<close>, the slice \<^verbatim>\<open>drones[0:-1]\<close> keeps the first
  point only, and the count is \<open>0\<close>.
\<close>

theorem two_close_points_default_limit:
  "conflicting (0, 0) (2, 2) 4 \<and> euclidean (0, 0) (2, 2) < 4 \<and>
   returned (count_conflicts [(0, 0), (2, 2)] 4 False (- 1)) = Inr 0 \<and>
   returned (count_conflicts [(0, 0), (2, 2)] 4 False 2) = Inr 2"
proof -
  let ?ps = "[(0, 0), (2, 2)] :: (real \<times> real) list"
  have v: "\<forall>p \<in> set ?ps. 0 \<le> fst p \<and> 0 \<le> snd p" by simp
  have n: "\<forall>p \<in> set ?ps. \<forall>q \<in> set ?ps. \<exists>d. dist_pts p q = Inr d"
    by (rule in_range_returns) simp
  have c: "conflicting (0, 0) (2, 2) 4"
    using conflicting_int_close[where a = 0 and b = 0 and c = 2 and d = 2 and k = 3 and r = 4]
    by simp
  have d: "euclidean (0, 0) (2, 2) < 4"
    by (simp add: euclidean_def real_less_lsqrt)
  have a: "returned (count_conflicts ?ps 4 False (- 1)) = Inr 0"
    by (subst count_conflicts_brute[OF _ _ v n])
       (simp_all add: prefix_len_def brute_force_count_def)
  have b: "returned (count_conflicts ?ps 4 False 2) = Inr 2"
    by (subst count_conflicts_brute[OF _ _ v n])
       (simp_all add: prefix_len_def brute_force_count_pair c)
  from c d a b show ?thesis by simp
qed

text \<open>
  Claim C3. For \<open>n\<close> points at one place with non-negative coordinates and a positive
  radius, the call with no limit given counts \<open>n - 1\<close> points when \<open>n \<ge> 3\<close> and none
  otherwise: the last point is left out. With the explicit limit \<open>n\<close> it counts \<open>n\<close>
  when \<open>n \<ge> 2\<close> and none otherwise.
\<close>

theorem identical_points_count:
  assumes "0 \<le> fst p" "0 \<le> snd p" "0 < r"
  shows "returned (count_conflicts (replicate n p) r debug (- 1)) =
           Inr (if 3 \<le> n then n - 1 else 0) \<and>
         returned (count_conflicts (replicate n p) r debug (int n)) =
           Inr (if 2 \<le> n then n else 0)"
proof -
  have a: "prefix_len n (- 1) = n - 1" by (simp add: prefix_len_def)
  have b: "prefix_len n (int n) = n" by (simp add: prefix_len_def)
  have "returned (count_conflicts (replicate n p) r debug (- 1)) =
      Inr (if 3 \<le> n then n - 1 else 0)"
    using count_conflicts_replicate[OF assms, of "- 1" n debug] unfolding a by auto
  moreover have "returned (count_conflicts (replicate n p) r debug (int n)) =
      Inr (if 2 \<le> n then n else 0)"
    using count_conflicts_replicate[OF assms, of "int n" n debug] unfolding b by simp
  ultimately show ?thesis by simp
qed

theorem identical_points_count_witness:
  "(0::real) \<le> fst (1, 1) \<and> (0::real) \<le> snd (1, 1) \<and> (0::real) < 1 \<and>
   returned (count_conflicts [(1, 1), (1, 1)] 1 False (- 1)) = Inr 0 \<and>
   returned (count_conflicts [(1, 1), (1, 1)] 1 False 2) = Inr 2 \<and>
   returned (count_conflicts [(1, 1), (1, 1), (1, 1)] 1 False (- 1)) = Inr 2 \<and>
   returned (count_conflicts [(1, 1), (1, 1), (1, 1)] 1 False 3) = Inr 3"
  using identical_points_count[of "(1, 1)" 1 2 False]
    identical_points_count[of "(1, 1)" 1 3 False]
  by (simp add: numeral_2_eq_2 numeral_3_eq_3)

section \<open>Arguments that are not checked\<close>

text \<open>
  Claim C5, as amended. \<^verbatim>\<open>count_conflicts\<close> checks its limit only: it has no parameter for
  the airspace size, and a conflict radius that is zero or negative is not rejected. For
  points with coordinates in \<open>[0, AIRSPACE_SIZE]\<close> and an admitted limit the call then
  completes and returns the count \<open>0\<close>.
\<close>

theorem nonpositive_radius_counts_none:
  assumes "\<forall>p \<in> set points. 0 \<le> fst p \<and> fst p \<le> real_of_int AIRSPACE_SIZE \<and>
                            0 \<le> snd p \<and> snd p \<le> real_of_int AIRSPACE_SIZE"
    and "- 1 \<le> limit" "limit \<le> int (length points)"
    and "r \<le> 0"
  shows "returned (count_conflicts points r debug limit) = Inr 0"
proof -
  have i: "\<forall>p \<in> set points. 0 \<le> fst p \<and> fst p \<le> 128000 \<and> 0 \<le> snd p \<and> snd p \<le> 128000"
    using assms(1) by (simp add: AIRSPACE_SIZE_def)
  then have v: "\<forall>p \<in> set points. 0 \<le> fst p \<and> 0 \<le> snd p" by blast
  show ?thesis
    unfolding count_conflicts_sectors[OF assms(2,3) v in_range_returns[OF i]]
      sector_conflicted_nonpositive[OF assms(4)]
    by simp
qed

theorem nonpositive_radius_counts_none_witness:
  "(0::real) \<le> fst (1, 2) \<and> fst (1, 2) \<le> real_of_int AIRSPACE_SIZE \<and>
   (0::real) \<le> snd (1, 2) \<and> snd (1, 2) \<le> real_of_int AIRSPACE_SIZE \<and>
   (0::real) \<le> fst (1, 3) \<and> fst (1, 3) \<le> real_of_int AIRSPACE_SIZE \<and>
   (0::real) \<le> snd (1, 3) \<and> snd (1, 3) \<le> real_of_int AIRSPACE_SIZE \<and>
   (- 1::int) \<le> 2 \<and> (2::int) \<le> int (length [(1::real, 2::real), (1, 3)]) \<and>
   (- 500::real) \<le> 0 \<and>
   returned (count_conflicts [(1, 2), (1, 3)] (- 500) True 2) = Inr 0"
  using nonpositive_radius_counts_none[of "[(1, 2), (1, 3)]" 2 "- 500" True]
  by (simp add: AIRSPACE_SIZE_def)

text \<open>A call with radius \<open>0\<close>, and one with radius \<open>-500\<close>, return a count.\<close>

theorem nonpositive_radius_rejected_counterexample:
  "returned (count_conflicts [(0, 0), (0, 0)] 0 False 2) = Inr 0 \<and>
   returned (count_conflicts [(0, 0), (0, 0)] (- 500) False (- 1)) = Inr 0"
proof -
  let ?ps = "[(0, 0), (0, 0)] :: (real \<times> real) list"
  have v: "\<forall>p \<in> set ?ps. 0 \<le> fst p \<and> 0 \<le> snd p" by simp
  have n: "\<forall>p \<in> set ?ps. \<forall>q \<in> set ?ps. \<exists>d. dist_pts p q = Inr d"
    by (rule in_range_returns) simp
  have a: "returned (count_conflicts ?ps 0 False 2) = Inr 0"
    by (subst count_conflicts_sectors[OF _ _ v n])
       (simp_all add: sector_conflicted_nonpositive)
  have b: "returned (count_conflicts ?ps (- 500) False (- 1)) = Inr 0"
    by (subst count_conflicts_sectors[OF _ _ v n])
       (simp_all add: sector_conflicted_nonpositive)
  from a b show ?thesis by simp
qed

section \<open>The limit\<close>

text \<open>
  Claim C6. A limit below \<open>-1\<close> or above the number of points fails the assertion, and
  for \<open>0 \<le> limit \<le> n\<close> the slice \<^verbatim>\<open>drones[0:limit]\<close> that is processed is the first
  \<open>limit\<close> drones. For the default \<open>-1\<close> the slice is the list without its last element:
  not all points are processed.
\<close>

theorem limit_is_checked_and_slices_a_prefix:
  "(limit < - 1 \<or> int (length points) < limit \<longrightarrow>
      count_conflicts points r debug limit = Inl AssertionError) \<and>
   (0 \<le> limit \<and> limit \<le> int (length xs) \<longrightarrow> py_prefix xs limit = take (nat limit) xs) \<and>
   py_prefix xs (- 1) = butlast xs"
proof (intro conjI impI)
  assume "limit < - 1 \<or> int (length points) < limit"
  then show "count_conflicts points r debug limit = Inl AssertionError"
    by (auto simp: count_conflicts_def)
next
  assume "0 \<le> limit \<and> limit \<le> int (length xs)"
  then show "py_prefix xs limit = take (nat limit) xs"
    by (simp add: py_prefix_def)
next
  have "nat (int (length xs) - 1) = length xs - 1" by simp
  then show "py_prefix xs (- 1) = butlast xs"
    by (simp add: py_prefix_def butlast_conv_take)
qed

text \<open>
  Three points that are pairwise in conflict: the default limit counts two of them, the
  explicit limit \<open>3\<close> counts three.
\<close>

theorem limit_is_checked_and_slices_a_prefix_witness:
  "count_conflicts [(0, 0), (2, 2), (1, 1)] 4 False 4 = Inl AssertionError \<and>
   count_conflicts [(0, 0), (2, 2), (1, 1)] 4 False (- 2) = Inl AssertionError \<and>
   py_prefix [(0::real, 0::real), (2, 2), (1, 1)] 2 = [(0, 0), (2, 2)] \<and>
   py_prefix [(0::real, 0::real), (2, 2), (1, 1)] (- 1) = [(0, 0), (2, 2)] \<and>
   returned (count_conflicts [(0, 0), (2, 2), (1, 1)] 4 False 3) = Inr 3 \<and>
   returned (count_conflicts [(0, 0), (2, 2), (1, 1)] 4 False (- 1)) = Inr 2"
proof -
  let ?ps = "[(0, 0), (2, 2), (1, 1)] :: (real \<times> real) list"
  have v: "\<forall>p \<in> set ?ps. 0 \<le> fst p \<and> 0 \<le> snd p" by simp
  have n: "\<forall>p \<in> set ?ps. \<forall>q \<in> set ?ps. \<exists>d. dist_pts p q = Inr d"
    by (rule in_range_returns) simp
  have k: "conflicting (of_int x, of_int x) (of_int y, of_int y) 4"
    if "x \<in> {0, 1, 2}" "y \<in> {0, 1, 2}" for x y :: int
    by (rule conflicting_int_close[where k = 3]) (use that in auto)
  note ks = k[of 0 1, simplified] k[of 0 2, simplified] k[of 1 0, simplified]
    k[of 1 2, simplified] k[of 2 0, simplified] k[of 2 1, simplified]
  have a: "count_conflicts ?ps 4 False 4 = Inl AssertionError"
    using limit_is_checked_and_slices_a_prefix[of 4 ?ps 4 False ?ps] by simp
  have b: "count_conflicts ?ps 4 False (- 2) = Inl AssertionError"
    using limit_is_checked_and_slices_a_prefix[of "- 2" ?ps 4 False ?ps] by simp
  have c: "py_prefix ?ps 2 = [(0, 0), (2, 2)]"
    using limit_is_checked_and_slices_a_prefix[of 2 ?ps 4 False ?ps] by simp
  have c': "py_prefix ?ps (- 1) = [(0, 0), (2, 2)]"
    using limit_is_checked_and_slices_a_prefix[of 2 ?ps 4 False ?ps] by simp
  have d: "returned (count_conflicts ?ps 4 False 3) = Inr 3"
    by (subst count_conflicts_brute[OF _ _ v n])
       (simp_all add: prefix_len_def brute_force_count_def upt_rec ks)
  have e: "returned (count_conflicts ?ps 4 False (- 1)) = Inr 2"
    by (subst count_conflicts_brute[OF _ _ v n])
       (simp_all add: prefix_len_def brute_force_count_def upt_rec ks)
  from a b c c' d e show ?thesis by simp
qed

section \<open>The debug flag\<close>

text \<open>
  Claim C9. \<^verbatim>\<open>count_conflicts\<close> is a function of its arguments, and what it returns (a
  count or an exception) is the same with \<^verbatim>\<open>debug\<close> on and off: the flag only adds
  printed messages.
\<close>

theorem count_conflicts_ignores_debug:
  "returned (count_conflicts drones conflict_radius True limit) =
   returned (count_conflicts drones conflict_radius False limit)"
  by (simp add: count_conflicts_def returned_def Let_def split: sum.splits prod.splits)

theorem count_conflicts_ignores_debug_witness:
  "returned (count_conflicts [(0, 0), (2, 2)] 4 True 2) =
   returned (count_conflicts [(0, 0), (2, 2)] 4 False 2)"
  by (rule count_conflicts_ignores_debug)

section \<open>The conflict test is strict\<close>




section \<open>The scanner returns each conflicted identifier once\<close>

text \<open>
  Claim C7, as amended. \<^verbatim>\<open>get_conflicts\<close> removes the duplicates itself before it
  returns: an identifier occurs exactly once in the list returned for a bucket when it
  belongs to at least one conflicting pair of the bucket, and does not occur otherwise,
  however many pairs it belongs to. For a bucket of drones in the airspace it returns.
\<close>

theorem get_conflicts_lists_conflicted_id_once:
  "(returned (get_conflicts drones conflict_rad debug) = Inr ids \<longrightarrow>
      count_list ids v =
        (if \<exists>i j. i < j \<and> j < length drones \<and>
               conflicting (coords (drones ! i)) (coords (drones ! j)) conflict_rad \<and>
               (v = drone_id (drones ! i) \<or> v = drone_id (drones ! j))
         then 1 else 0)) \<and>
   ((\<forall>droneA \<in> set drones.
        0 \<le> fst (coords droneA) \<and> fst (coords droneA) \<le> real_of_int AIRSPACE_SIZE \<and>
        0 \<le> snd (coords droneA) \<and> snd (coords droneA) \<le> real_of_int AIRSPACE_SIZE) \<longrightarrow>
      (\<exists>found. returned (get_conflicts drones conflict_rad debug) = Inr found))"
proof (intro conjI impI)
  assume "returned (get_conflicts drones conflict_rad debug) = Inr ids"
  then obtain printed where "get_conflicts drones conflict_rad debug = Inr (printed, ids)"
    by (cases "get_conflicts drones conflict_rad debug") (auto simp: returned_def)
  then have "ids = close_ids drones conflict_rad" by (rule get_conflicts_ids)
  then show "count_list ids v =
      (if \<exists>i j. i < j \<and> j < length drones \<and>
             conflicting (coords (drones ! i)) (coords (drones ! j)) conflict_rad \<and>
             (v = drone_id (drones ! i) \<or> v = drone_id (drones ! j))
       then 1 else 0)"
    using set_close_ids[of drones conflict_rad]
    by (simp add: count_list_distinct[OF distinct_close_ids])
next
  assume "\<forall>droneA \<in> set drones.
      0 \<le> fst (coords droneA) \<and> fst (coords droneA) \<le> real_of_int AIRSPACE_SIZE \<and>
      0 \<le> snd (coords droneA) \<and> snd (coords droneA) \<le> real_of_int AIRSPACE_SIZE"
  then have "\<forall>p \<in> set (map coords drones).
      0 \<le> fst p \<and> fst p \<le> 128000 \<and> 0 \<le> snd p \<and> snd p \<le> 128000"
    by (simp add: AIRSPACE_SIZE_def)
  from in_range_returns[OF this]
  have "\<forall>a \<in> set drones. \<forall>b \<in> set drones. \<exists>d. dist_pts (coords a) (coords b) = Inr d"
    by simp
  from get_conflicts_returns[OF this, of conflict_rad debug]
  show "\<exists>found. returned (get_conflicts drones conflict_rad debug) = Inr found"
    by (auto simp: returned_def)
qed

text \<open>
  Three drones at one place: each identifier belongs to two of the three conflicting
  pairs and is returned once.
\<close>

theorem get_conflicts_once_per_pair_counterexample:
  "conflict_pairs [\<lparr>coords = (0, 0), drone_id = 0\<rparr>, \<lparr>coords = (0, 0), drone_id = 1\<rparr>,
                   \<lparr>coords = (0, 0), drone_id = 2\<rparr>] 1 =
     Inr [(\<lparr>coords = (0, 0), drone_id = 0\<rparr>, \<lparr>coords = (0, 0), drone_id = 1\<rparr>, Finite 0),
          (\<lparr>coords = (0, 0), drone_id = 0\<rparr>, \<lparr>coords = (0, 0), drone_id = 2\<rparr>, Finite 0),
          (\<lparr>coords = (0, 0), drone_id = 1\<rparr>, \<lparr>coords = (0, 0), drone_id = 2\<rparr>, Finite 0)] \<and>
   returned (get_conflicts [\<lparr>coords = (0, 0), drone_id = 0\<rparr>, \<lparr>coords = (0, 0), drone_id = 1\<rparr>,
                            \<lparr>coords = (0, 0), drone_id = 2\<rparr>] 1 False) = Inr [0, 1, 2]"
  by (simp add: get_conflicts_def returned_def dist_pts_same)

theorem get_conflicts_lists_conflicted_id_once_witness:
  "returned (get_conflicts [\<lparr>coords = (0, 0), drone_id = 0\<rparr>, \<lparr>coords = (0, 0), drone_id = 1\<rparr>,
                            \<lparr>coords = (3, 4), drone_id = 2\<rparr>] 5 True) = Inr [0, 1] \<and>
   count_list [0::nat, 1] 1 = 1 \<and> count_list [0::nat, 1] 2 = 0 \<and>
   (0::real) \<le> fst (3, 4) \<and> fst (3::real, 4::real) \<le> real_of_int AIRSPACE_SIZE \<and>
   (0::real) \<le> snd (3, 4) \<and> snd (3::real, 4::real) \<le> real_of_int AIRSPACE_SIZE"
proof -
  let ?ds = "[\<lparr>coords = (0, 0), drone_id = 0\<rparr>, \<lparr>coords = (0, 0), drone_id = 1\<rparr>,
              \<lparr>coords = (3, 4), drone_id = 2\<rparr>]"
  have e: "euclidean (0, 0) (3, 4) = 5"
    by (simp add: euclidean_def real_sqrt_unique)
  have d: "dist_pts (0, 0) (3, 4) = Inr (Finite 5)"
    using dist_pts_int[of 0 3 0 4] to_double_int[of 5] by (simp add: e)
  have g: "returned (get_conflicts ?ds 5 True) = Inr [0, 1]"
    by (simp add: get_conflicts_def returned_def dist_pts_same d)
  have a: "count_list [0::nat, 1] 1 = 1"
    using get_conflicts_lists_conflicted_id_once[of ?ds 5 True "[0, 1]" 1] g by simp
  have b: "count_list [0::nat, 1] 2 = 0"
    using get_conflicts_lists_conflicted_id_once[of ?ds 5 True "[0, 1]" 2] g by simp
  from g a b show ?thesis by (simp add: AIRSPACE_SIZE_def)
qed

section \<open>The boundary sequence\<close>

text \<open>
  Claim C8. For a positive airspace size \<open>S\<close>, conflict radius \<open>r\<close> and padding multiplier
  \<open>m\<close>, \<^verbatim>\<open>split_into_sectors\<close> returns boundaries that increase strictly, start at \<open>0\<close>
  and end at \<open>S\<close>; consecutive boundaries are \<open>r * m\<close> apart, except the last segment,
  which ends at \<open>S\<close> and is positive and at most \<open>r * m\<close> long.
\<close>

theorem boundaries_increase_from_zero_to_size:
  assumes "0 < S" "0 < r" "0 < m"
  shows "\<exists>boundaries sectors.
           split_into_sectors S r m = Inr (boundaries, sectors) \<and>
           sorted_wrt (<) boundaries \<and> 2 \<le> length boundaries \<and>
           hd boundaries = 0 \<and> last boundaries = S \<and>
           (\<forall>i. Suc (Suc i) < length boundaries \<longrightarrow>
                  boundaries ! Suc i - boundaries ! i = r * m) \<and>
           0 < S - boundaries ! (length boundaries - 2) \<and>
           S - boundaries ! (length boundaries - 2) \<le> r * m"
proof -
  have k: "0 < r * m" using assms(2,3) by simp
  let ?bs = "grid_bounds S (r * m)"
  have len: "2 \<le> length ?bs" using assms(1) k by (rule grid_bounds_length_ge2)
  then have ne: "?bs \<noteq> []" by auto
  have "hd ?bs = ?bs ! 0" using ne by (simp add: hd_conv_nth)
  then have h: "hd ?bs = 0" using grid_bounds_zero[OF assms(1) k] by simp
  have l: "last ?bs = S" by (simp add: grid_bounds_def)
  have st: "\<forall>i. Suc (Suc i) < length ?bs \<longrightarrow> ?bs ! Suc i - ?bs ! i = r * m"
    using grid_bounds_step[OF assms(1) k] by blast
  show ?thesis
    using split_into_sectors_pos[OF k, of S] grid_bounds_sorted[OF assms(1) k] len h l st
      grid_bounds_last_step[OF assms(1) k]
    by blast
qed

theorem boundaries_increase_from_zero_to_size_witness:
  "(0::int) < 20 \<and> (0::int) < 4 \<and> (0::int) < 2 \<and>
   (\<exists>boundaries sectors.
      split_into_sectors 20 4 2 = Inr (boundaries, sectors) \<and>
      boundaries = [0, 8, 16, 20] \<and>
      sorted_wrt (<) boundaries \<and> hd boundaries = 0 \<and> last boundaries = 20 \<and>
      boundaries ! 1 - boundaries ! 0 = 4 * 2 \<and> boundaries ! 2 - boundaries ! 1 = 4 * 2 \<and>
      20 - boundaries ! 2 \<le> 4 * 2)"
  using boundaries_increase_from_zero_to_size[of 20 4 2]
  by (simp add: split_into_sectors_def range_step_def upt_rec)

section \<open>The cells of a point are keys of the dictionary\<close>

text \<open>
  Claim C10. On the grid that \<^verbatim>\<open>split_into_sectors\<close> builds for positive arguments, a
  coordinate \<open>c\<close> with \<open>0 \<le> c \<le> S\<close> is mapped by \<^verbatim>\<open>map_coordinate\<close> to a pair
  \<open>(lo, hi)\<close> with \<open>hi = lo + 1\<close>, \<open>0 \<le> lo\<close> and \<open>hi \<le> len(boundaries) - 1\<close>; the four keys
  that the assigner forms for a point with two such coordinates are keys of the
  dictionary, and appending the point under them raises no \<^verbatim>\<open>KeyError\<close>.
\<close>

theorem mapped_cells_are_sector_keys:
  assumes "0 < S" "0 < r" "0 < m"
    and "0 \<le> x" "x \<le> real_of_int S" "0 \<le> y" "y \<le> real_of_int S"
  shows "\<exists>boundaries sectors.
           split_into_sectors S r m = Inr (boundaries, sectors) \<and>
           snd (map_coordinate boundaries x) = fst (map_coordinate boundaries x) + 1 \<and>
           0 \<le> fst (map_coordinate boundaries x) \<and>
           snd (map_coordinate boundaries x) \<le> int (length boundaries) - 1 \<and>
           fst ` set sectors =
             {0..int (length boundaries)} \<times> {0..int (length boundaries)} \<and>
           set (sector_locs boundaries \<lparr>coords = (x, y), drone_id = i\<rparr>) \<subseteq> fst ` set sectors \<and>
           (\<exists>sectors'. append_all sectors (sector_locs boundaries \<lparr>coords = (x, y), drone_id = i\<rparr>)
                          \<lparr>coords = (x, y), drone_id = i\<rparr> = Inr sectors')"
proof -
  have k: "0 < r * m" using assms(2,3) by simp
  let ?bs = "grid_bounds S (r * m)"
  let ?secs = "map (\<lambda>key. (key, [])) (grid_keys (int (length ?bs)))"
  let ?d = "\<lparr>coords = (x, y), drone_id = i\<rparr>"
  have len: "2 \<le> length ?bs" using assms(1) k by (rule grid_bounds_length_ge2)
  then have ne: "?bs \<noteq> []" by auto
  have z: "?bs ! 0 = 0" using assms(1) k by (rule grid_bounds_zero)
  have lo: "1 \<le> field_of ?bs x" using len z assms(4) by (rule field_of_lower)
  have hi: "field_of ?bs x \<le> length ?bs - 1" using ne by (rule field_of_upper)
  have keys: "fst ` set ?secs = set (grid_keys (int (length ?bs)))"
    by (simp add: image_image)
  have sub: "set (sector_locs ?bs ?d) \<subseteq> fst ` set ?secs"
    unfolding keys using len z assms(4,6) by (intro sector_locs_in_grid) simp_all
  have app: "\<exists>sectors'. append_all ?secs (sector_locs ?bs ?d) ?d = Inr sectors'"
    using append_all_ok[OF sub distinct_sector_locs[OF ne], of ?d] by blast
  have m1: "snd (map_coordinate ?bs x) = fst (map_coordinate ?bs x) + 1"
    by (simp add: map_coordinate_field[OF ne])
  have m2: "0 \<le> fst (map_coordinate ?bs x)"
    using lo by (simp add: map_coordinate_field[OF ne])
  have m3: "snd (map_coordinate ?bs x) \<le> int (length ?bs) - 1"
    using hi len by (simp add: map_coordinate_field[OF ne])
  have all_keys: "fst ` set ?secs = {0..int (length ?bs)} \<times> {0..int (length ?bs)}"
    unfolding keys by (rule set_grid_keys)
  show ?thesis
    using split_into_sectors_pos[OF k, of S] m1 m2 m3 all_keys sub app by blast
qed

theorem mapped_cells_are_sector_keys_witness:
  "(0::int) < 20 \<and> (0::int) < 4 \<and> (0::int) < 2 \<and>
   (0::real) \<le> 17 \<and> (17::real) \<le> real_of_int 20 \<and> (0::real) \<le> 20 \<and>
   (20::real) \<le> real_of_int 20 \<and>
   (\<exists>boundaries sectors.
      split_into_sectors 20 4 2 = Inr (boundaries, sectors) \<and>
      map_coordinate boundaries 17 = (2, 3) \<and>
      fst ` set sectors = {0..4} \<times> {0..4} \<and>
      sector_locs boundaries \<lparr>coords = (17, 20), drone_id = 0\<rparr> =
        [(2, 2), (2, 3), (3, 2), (3, 3)])"
  using mapped_cells_are_sector_keys[of 20 4 2 17 20 0]
  by (simp add: split_into_sectors_def range_step_def upt_rec map_coordinate_def
      sector_locs_def)

end
